theory Spec2Isabelle
  imports Complex_Main
begin

section \<open>Constructors of interval exchange permutations\<close>

text \<open>
  This theory embeds \<^verbatim>\<open>surface_dynamics/interval_exchanges/constructors.py\<close>.
  A label is a value of an arbitrary type \<open>'a\<close>; a row is a list of labels. The two rows
  are what \<^verbatim>\<open>_two_lists\<close> hands back when it is given two sequences.
\<close>

subsection \<open>Errors\<close>

text \<open>
  Every \<^verbatim>\<open>raise\<close> of the module is one constructor. The Python messages are:
  \<^item> \<open>InvalidFlipLetter\<close>: ValueError "flips contains not valid letters";
  \<^item> \<open>LetterMultiplicityError OnceInEachInterval\<close>: ValueError "letters must appear once in
    each interval";
  \<^item> \<open>LetterMultiplicityError Twice\<close>: ValueError "letters must appear twice";
  \<^item> \<open>NoAdmissibleLength\<close>: ValueError "no admissible length";
  \<^item> \<open>NotInList\<close>: the ValueError of \<^verbatim>\<open>list.index\<close> on an absent element;
  \<^item> \<open>NotFlippable\<close>: TypeError "interval exchange with flips not yet implemented";
  \<^item> \<open>LengthMismatchError\<close>: ValueError "bad number of lengths";
  \<^item> \<open>InvalidLengthValue\<close>: TypeError "unable to convert x into a real number";
  \<^item> \<open>NonPositiveLength\<close>: ValueError "lengths must be non-negative".

  The last three constructors are errors of parts of the library that the module only calls;
  they carry the names the spec gives them: an induction move that is undefined, a move
  label that does not resolve along a path, and an exploration that exceeds its bound.
\<close>

datatype multiplicity_rule = OnceInEachInterval | Twice

datatype error =
    InvalidFlipLetter
  | LetterMultiplicityError multiplicity_rule
  | NoAdmissibleLength
  | NotInList
  | NotFlippable
  | LengthMismatchError
  | InvalidLengthValue
  | NonPositiveLength
  | DegenerateInductionError
  | InvalidMoveLabelError
  | ExplorationBoundExceeded

subsection \<open>Permutation objects\<close>

text \<open>
  The eight classes the constructors choose from live in other modules. An object is the
  record of the class and of the arguments of the call \<^verbatim>\<open>cls(a, alphabet=alphabet,
  reduced=reduced, flips=flips)\<close> that built it.
\<close>

datatype perm_class =
    LabelledPermutationIET
  | FlippedLabelledPermutationIET
  | ReducedPermutationIET
  | FlippedReducedPermutationIET
  | LabelledPermutationLI
  | FlippedLabelledPermutationLI
  | ReducedPermutationLI
  | FlippedReducedPermutationLI

record 'a permutation =
  perm_cls :: perm_class
  perm_top :: "'a list"
  perm_bottom :: "'a list"
  perm_alphabet :: "'a list option"
  perm_reduced :: bool
  perm_flips :: "'a list option"

fun is_iet_class :: "perm_class \<Rightarrow> bool" where
  "is_iet_class LabelledPermutationIET = True"
| "is_iet_class FlippedLabelledPermutationIET = True"
| "is_iet_class ReducedPermutationIET = True"
| "is_iet_class FlippedReducedPermutationIET = True"
| "is_iet_class _ = False"

subsection \<open>Validation loops\<close>

text \<open>\<^verbatim>\<open>for letter in flips: if letter not in letters: raise\<close>\<close>

definition flips_in_letters :: "'a list \<Rightarrow> 'a list \<Rightarrow> bool" where
  "flips_in_letters fl l = list_all (\<lambda>letter. letter \<in> set l) fl"

text \<open>
  \<^verbatim>\<open>for letter in letters: if a[0].count(letter) != 1 or a[1].count(letter) != 1: raise\<close>.
  The Python set \<^verbatim>\<open>letters\<close> is enumerated as \<open>remdups l\<close>; the loop raises the same
  error whichever letter it meets first.
\<close>

definition once_in_each_interval :: "'a list \<Rightarrow> 'a list \<Rightarrow> bool" where
  "once_in_each_interval a0 a1 =
     list_all (\<lambda>letter. count_list a0 letter = 1 \<and> count_list a1 letter = 1) (remdups (a0 @ a1))"

text \<open>\<^verbatim>\<open>for letter in letters: if l.count(letter) != 2: raise\<close>\<close>

definition appear_twice :: "'a list \<Rightarrow> bool" where
  "appear_twice l = list_all (\<lambda>letter. count_list l letter = 2) (remdups l)"

subsection \<open>Permutation\<close>

text \<open>
  \<^verbatim>\<open>Permutation(arg1, arg2, reduced, flips, alphabet)\<close> on two rows. An empty \<^verbatim>\<open>flips\<close> is
  turned into \<^verbatim>\<open>None\<close> before anything else is looked at.
\<close>

definition iet_class_of :: "bool \<Rightarrow> 'a list option \<Rightarrow> perm_class" where
  "iet_class_of red fl =
     (if red then (if fl = None then ReducedPermutationIET else FlippedReducedPermutationIET)
      else (if fl = None then LabelledPermutationIET else FlippedLabelledPermutationIET))"

definition Permutation ::
  "'a list \<Rightarrow> 'a list \<Rightarrow> bool option \<Rightarrow> 'a list option \<Rightarrow> 'a list option
     \<Rightarrow> error + 'a permutation" where
  "Permutation a0 a1 reduced flips alphabet =
     (let red = (case reduced of None \<Rightarrow> False | Some r \<Rightarrow> r);
          l = a0 @ a1;
          fl = (case flips of None \<Rightarrow> None | Some f \<Rightarrow> if f = [] then None else Some f)
      in if \<not> (case fl of None \<Rightarrow> True | Some f \<Rightarrow> flips_in_letters f l)
         then Inl InvalidFlipLetter
         else if \<not> once_in_each_interval a0 a1
         then Inl (LetterMultiplicityError OnceInEachInterval)
         else Inr \<lparr>perm_cls = iet_class_of red fl, perm_top = a0, perm_bottom = a1,
                   perm_alphabet = alphabet, perm_reduced = red, perm_flips = fl\<rparr>)"

subsection \<open>GeneralizedPermutation\<close>

text \<open>
  The loop that empties the copies \<^verbatim>\<open>b0\<close>, \<^verbatim>\<open>b1\<close> of the rows:
  \<^verbatim>\<open>if b0.count(letter) == 1: del b0[b0.index(letter)]; del b1[b1.index(letter)]\<close>.
  \<^verbatim>\<open>b1.index(letter)\<close> raises when the letter is not in \<^verbatim>\<open>b1\<close>.
\<close>

fun delete_once_letters :: "'a list \<Rightarrow> 'a list \<Rightarrow> 'a list \<Rightarrow> error + ('a list \<times> 'a list)" where
  "delete_once_letters [] b0 b1 = Inr (b0, b1)"
| "delete_once_letters (letter # letters) b0 b1 =
     (if count_list b0 letter = 1
      then (if letter \<in> set b1
            then delete_once_letters letters (remove1 letter b0) (remove1 letter b1)
            else Inl NotInList)
      else delete_once_letters letters b0 b1)"

definition li_class_of :: "bool \<Rightarrow> 'a list option \<Rightarrow> perm_class" where
  "li_class_of red fl =
     (if red then (if fl = None then ReducedPermutationLI else FlippedReducedPermutationLI)
      else (if fl = None then LabelledPermutationLI else FlippedLabelledPermutationLI))"

definition GeneralizedPermutation ::
  "'a list \<Rightarrow> 'a list \<Rightarrow> bool option \<Rightarrow> 'a list option \<Rightarrow> 'a list option
     \<Rightarrow> error + 'a permutation" where
  "GeneralizedPermutation a0 a1 reduced flips alphabet =
     (let red = (case reduced of None \<Rightarrow> False | Some r \<Rightarrow> r);
          l = a0 @ a1
      in if \<not> (case flips of None \<Rightarrow> True | Some f \<Rightarrow> flips_in_letters f l)
         then Inl InvalidFlipLetter
         else if \<not> appear_twice l
         then Inl (LetterMultiplicityError Twice)
         else (case delete_once_letters (remdups l) a0 a1 of
                 Inl e \<Rightarrow> Inl e
               | Inr (b0, b1) \<Rightarrow>
                   if b0 = [] \<and> b1 = [] then Permutation a0 a1 (Some red) flips alphabet
                   else if b0 = [] \<or> b1 = [] then Inl NoAdmissibleLength
                   else Inr \<lparr>perm_cls = li_class_of red flips, perm_top = a0, perm_bottom = a1,
                             perm_alphabet = alphabet, perm_reduced = red, perm_flips = flips\<rparr>))"

subsection \<open>Conditions the claims speak about\<close>

text \<open>
  The flips check of both constructors, as one predicate: no flips, or every flip letter is a
  letter of the rows (an empty \<^verbatim>\<open>flips\<close> passes either way).
\<close>

definition flips_accepted :: "'a list option \<Rightarrow> 'a list \<Rightarrow> bool" where
  "flips_accepted flips l = (case flips of None \<Rightarrow> True | Some f \<Rightarrow> flips_in_letters f l)"

text \<open>
  The two rows once every letter that occurs once in each row is deleted. This follows the
  words of the claim, not the loop of the code; \<open>delete_once_letters\<close> is the loop.
\<close>

definition without_once_letters :: "'a list \<Rightarrow> 'a list \<Rightarrow> 'a list \<times> 'a list" where
  "without_once_letters a0 a1 =
     (filter (\<lambda>x. \<not> (count_list a0 x = 1 \<and> count_list a1 x = 1)) a0,
      filter (\<lambda>x. \<not> (count_list a0 x = 1 \<and> count_list a1 x = 1)) a1)"

subsection \<open>Accessors of permutation objects\<close>

text \<open>
  Modelled from the spec: the methods \<^verbatim>\<open>list()\<close>, \<^verbatim>\<open>alphabet()\<close>, \<^verbatim>\<open>flips()\<close> and \<^verbatim>\<open>__len__\<close>
  and the attributes \<^verbatim>\<open>_labels\<close> and \<^verbatim>\<open>_flips\<close> of the permutation classes are not part of the
  module. The spec gives the row representation as the two rows, the alphabet as an ordered
  label list whose default is the discovery order, the flips as a set of labels whose default
  is empty, and the size of a permutation as its number of letters. An object is in reduced
  mode (\<^verbatim>\<open>_labels is None\<close>) when it was built with \<^verbatim>\<open>reduced=True\<close>, and has flips
  (\<^verbatim>\<open>_flips is not None\<close>) when it was built with a \<^verbatim>\<open>flips\<close> argument other than \<^verbatim>\<open>None\<close>.
\<close>

primrec discovery_order :: "'a list \<Rightarrow> 'a list" where
  "discovery_order [] = []"
| "discovery_order (x # xs) = x # filter (\<lambda>y. y \<noteq> x) (discovery_order xs)"

definition alphabet_of :: "'a permutation \<Rightarrow> 'a list" where
  "alphabet_of p =
     (case perm_alphabet p of
        None \<Rightarrow> discovery_order (perm_top p @ perm_bottom p)
      | Some al \<Rightarrow> al)"

definition flips_of :: "'a permutation \<Rightarrow> 'a list" where
  "flips_of p = (case perm_flips p of None \<Rightarrow> [] | Some f \<Rightarrow> f)"

definition len_permutation :: "'a permutation \<Rightarrow> nat" where
  "len_permutation p = length (perm_top p)"

subsection \<open>The constructors on a permutation object\<close>

text \<open>
  The first branch of \<^verbatim>\<open>Permutation\<close>: \<^verbatim>\<open>arg2 is None\<close> and \<^verbatim>\<open>arg1\<close> is a permutation
  object. The call recurses on \<^verbatim>\<open>arg1.list()\<close>, the two rows of the object, which
  \<^verbatim>\<open>_two_lists\<close> splits again; \<^verbatim>\<open>arg1._labels is None\<close> holds for the reduced classes.
\<close>

definition Permutation_of ::
  "'a permutation \<Rightarrow> bool option \<Rightarrow> 'a list option \<Rightarrow> 'a list option
     \<Rightarrow> error + 'a permutation" where
  "Permutation_of arg1 reduced flips alphabet =
     Permutation (perm_top arg1) (perm_bottom arg1)
       (Some (case reduced of None \<Rightarrow> perm_reduced arg1 | Some r \<Rightarrow> r))
       (Some (case flips of None \<Rightarrow> flips_of arg1 | Some f \<Rightarrow> f))
       (Some (case alphabet of None \<Rightarrow> alphabet_of arg1 | Some al \<Rightarrow> al))"

text \<open>
  The first branch of \<^verbatim>\<open>GeneralizedPermutation\<close> is the same, with the recursive call made
  to \<^verbatim>\<open>GeneralizedPermutation\<close>.
\<close>

definition GeneralizedPermutation_of ::
  "'a permutation \<Rightarrow> bool option \<Rightarrow> 'a list option \<Rightarrow> 'a list option
     \<Rightarrow> error + 'a permutation" where
  "GeneralizedPermutation_of arg1 reduced flips alphabet =
     GeneralizedPermutation (perm_top arg1) (perm_bottom arg1)
       (Some (case reduced of None \<Rightarrow> perm_reduced arg1 | Some r \<Rightarrow> r))
       (Some (case flips of None \<Rightarrow> flips_of arg1 | Some f \<Rightarrow> f))
       (Some (case alphabet of None \<Rightarrow> alphabet_of arg1 | Some al \<Rightarrow> al))"

subsection \<open>IntervalExchangeTransformation\<close>

text \<open>
  The first argument is a permutation object or a tuple of two rows. A supplied length is a
  number, or a value on which \<^verbatim>\<open>float(x)\<close> raises ValueError. A dictionary of lengths is the
  list of its values. The result \<open>Inr (p, lengths)\<close> is the call \<^verbatim>\<open>_IET(p, lengths)\<close> that
  ends the function.
\<close>

datatype 'a permutation_arg = PermutationObject "'a permutation" | RowsTuple "'a list" "'a list"

datatype 'n length_value = Number 'n | NotANumber

fun check_lengths :: "('n::{zero,ord}) length_value list \<Rightarrow> error option" where
  "check_lengths [] = None"
| "check_lengths (NotANumber # it) = Some InvalidLengthValue"
| "check_lengths (Number x # it) = (if x < 0 then Some NonPositiveLength else check_lengths it)"

definition iet_permutation :: "'a permutation_arg \<Rightarrow> error + 'a permutation" where
  "iet_permutation permutation =
     (case permutation of
        PermutationObject q \<Rightarrow>
          if perm_flips q \<noteq> None then Inl NotFlippable
          else if perm_cls q = LabelledPermutationIET then Inr q
          else Permutation_of q None None None
      | RowsTuple a0 a1 \<Rightarrow> Permutation a0 a1 None None None)"

definition IntervalExchangeTransformation ::
  "'a permutation_arg \<Rightarrow> ('n::{zero,ord}) length_value list
     \<Rightarrow> error + ('a permutation \<times> 'n length_value list)" where
  "IntervalExchangeTransformation permutation lengths =
     (case iet_permutation permutation of
        Inl e \<Rightarrow> Inl e
      | Inr p \<Rightarrow>
          if length lengths \<noteq> len_permutation p then Inl LengthMismatchError
          else (case check_lengths lengths of
                  Some e \<Rightarrow> Inl e
                | None \<Rightarrow> Inr (p, lengths)))"

subsection \<open>Equality of permutations\<close>

text \<open>
  Modelled from the spec: the comparison \<^verbatim>\<open>==\<close> of permutation objects is defined in the
  classes, which are not part of the module. The spec gives it by mode. Two labelled
  permutations are equal when they are literally the same: same rows, same ordered alphabet,
  same flipped letters. Two reduced permutations are equal when they have the same canonical
  representative; the representative chosen here names every letter by the position of its
  first occurrence in the top row followed by the bottom row. A labelled and a reduced
  permutation are never equal.
\<close>

primrec first_position :: "'a list \<Rightarrow> 'a \<Rightarrow> nat" where
  "first_position [] x = 0"
| "first_position (y # ys) x = (if x = y then 0 else Suc (first_position ys x))"

definition canonical_form :: "'a permutation \<Rightarrow> nat list \<times> nat list \<times> nat set" where
  "canonical_form p =
     (let l = perm_top p @ perm_bottom p
      in (map (first_position l) (perm_top p), map (first_position l) (perm_bottom p),
          first_position l ` set (flips_of p)))"

definition labelled_equal :: "'a permutation \<Rightarrow> 'a permutation \<Rightarrow> bool" where
  "labelled_equal p q \<longleftrightarrow>
     perm_top p = perm_top q \<and> perm_bottom p = perm_bottom q \<and> alphabet_of p = alphabet_of q
     \<and> set (flips_of p) = set (flips_of q)"

definition reduced_equal :: "'a permutation \<Rightarrow> 'b permutation \<Rightarrow> bool" where
  "reduced_equal p q \<longleftrightarrow> canonical_form p = canonical_form q"

definition permutation_equal :: "'a permutation \<Rightarrow> 'a permutation \<Rightarrow> bool" where
  "permutation_equal p q \<longleftrightarrow>
     perm_reduced p = perm_reduced q \<and>
     (if perm_reduced p then reduced_equal p q else labelled_equal p q)"

text \<open>
  The words of the spec for reduced equality: one row-sequence pattern matches the other after
  a label-consistent renaming. The renaming \<open>f\<close> is one-to-one on the letters, carries each
  row onto the corresponding row and the flipped letters onto the flipped letters.
\<close>

definition renaming :: "('a \<Rightarrow> 'b) \<Rightarrow> 'a permutation \<Rightarrow> 'b permutation \<Rightarrow> bool" where
  "renaming f p q \<longleftrightarrow>
     inj_on f (set (perm_top p @ perm_bottom p)) \<and>
     map f (perm_top p) = perm_top q \<and> map f (perm_bottom p) = perm_bottom q \<and>
     f ` set (flips_of p) = set (flips_of q)"

subsection \<open>Rauzy induction\<close>

text \<open>
  Modelled from the spec: the induction moves are methods of the permutation classes, which
  are not part of the module. A vertex is the pair of rows of a permutation. The spec names
  seven kinds of move: right induction and left induction, each won by the top or by the
  bottom row, the left-right inversion, the top-bottom inversion and the symmetric move.

  Right induction compares the rightmost letters of the two rows; it is undefined when they
  coincide (or when a row is empty). The row named as winner keeps its letter; the rightmost
  letter of the other row, the loser, is taken away from its end and put back immediately
  past the other occurrence of the winner letter. For an interval exchange that occurrence
  lies in the loser's row. For a linear involution it may lie in the winner's own row; the
  spec has no separate rule for that case and no other condition under which the move is
  undefined, so its words are followed as they stand. Left induction is the mirror operation
  at the left ends of the rows. The left-right inversion reverses both rows, the top-bottom
  inversion swaps them, and the symmetric move composes the two inversions.
\<close>

datatype winner = Top | Bottom

datatype side = RightSide | LeftSide

datatype move_kind =
    RauzyMove winner side
  | LeftRightInversion
  | TopBottomInversion
  | Symmetric

type_synonym 'a rows = "'a list \<times> 'a list"

fun insert_after :: "'a \<Rightarrow> 'a \<Rightarrow> 'a list \<Rightarrow> 'a list" where
  "insert_after w l [] = []"
| "insert_after w l (x # xs) = (if x = w then x # l # xs else x # insert_after w l xs)"

fun winner_row :: "winner \<Rightarrow> 'a rows \<Rightarrow> 'a list" where
  "winner_row Top (a0, a1) = a0"
| "winner_row Bottom (a0, a1) = a1"

fun loser_row :: "winner \<Rightarrow> 'a rows \<Rightarrow> 'a list" where
  "loser_row Top (a0, a1) = a1"
| "loser_row Bottom (a0, a1) = a0"

fun with_rows :: "winner \<Rightarrow> 'a list \<Rightarrow> 'a list \<Rightarrow> 'a rows" where
  "with_rows Top wrow lrow = (wrow, lrow)"
| "with_rows Bottom wrow lrow = (lrow, wrow)"

definition rauzy_move :: "winner \<Rightarrow> 'a rows \<Rightarrow> error + 'a rows" where
  "rauzy_move wn p =
     (let wrow = winner_row wn p; lrow = loser_row wn p
      in if wrow = [] \<or> lrow = [] then Inl DegenerateInductionError
         else if last wrow = last lrow then Inl DegenerateInductionError
         else let w = last wrow; l = last lrow
              in Inr (if w \<in> set (butlast lrow)
                      then with_rows wn wrow (insert_after w l (butlast lrow))
                      else with_rows wn (insert_after w l wrow) (butlast lrow)))"

definition left_right_inverse :: "'a rows \<Rightarrow> 'a rows" where
  "left_right_inverse p = (rev (fst p), rev (snd p))"

definition top_bottom_inverse :: "'a rows \<Rightarrow> 'a rows" where
  "top_bottom_inverse p = (snd p, fst p)"

definition symmetric :: "'a rows \<Rightarrow> 'a rows" where
  "symmetric p = top_bottom_inverse (left_right_inverse p)"

fun induction_move :: "move_kind \<Rightarrow> 'a rows \<Rightarrow> error + 'a rows" where
  "induction_move (RauzyMove wn RightSide) p = rauzy_move wn p"
| "induction_move (RauzyMove wn LeftSide) p =
     map_sum id left_right_inverse (rauzy_move wn (left_right_inverse p))"
| "induction_move LeftRightInversion p = Inr (left_right_inverse p)"
| "induction_move TopBottomInversion p = Inr (top_bottom_inverse p)"
| "induction_move Symmetric p = Inr (symmetric p)"

subsection \<open>Paths\<close>

text \<open>
  Modelled from the spec: paths, their matrices and their substitutions belong to the Rauzy
  diagram classes, which are not part of the module. A path is resolved from a start vertex
  and a list of move kinds; it fails when a label does not name an enabled move kind or when
  a move is undefined where it is asked for. An edge is its start vertex and its move kind.
  In a reduced diagram the spec has the move applied to a concrete representative and the
  matrix expressed in the ordering of the seed, so the rows of an edge are those of the
  representative that carries the letters of the seed.

  The letters of an induction edge are the letters at the end of the rows where the move
  takes place. The conventions are the ones the docstrings of the module show: the matrix
  of an induction edge is the identity with the entry in the row of the winner and the
  column of the loser set to 1 (\<^verbatim>\<open>rauzy_move_matrix\<close> in the docstring of \<^verbatim>\<open>Permutation\<close>),
  the matrix of a path is the product of the matrices of its edges from the first to the
  last, and the column of the incidence matrix that belongs to a letter counts the letters
  of its image (the example of \<^verbatim>\<open>RauzyDiagram\<close>). No interval is absorbed along an inversion
  or a symmetric edge: its matrix is the identity. Matrices are functions of a row letter and
  a column letter; products sum over the alphabet.
\<close>

type_synonym 'a edge = "'a rows \<times> move_kind"

fun rauzy_path :: "'a rows \<Rightarrow> move_kind list \<Rightarrow> error + 'a edge list" where
  "rauzy_path p [] = Inr []"
| "rauzy_path p (m # ms) =
     (case induction_move m p of
        Inl e \<Rightarrow> Inl InvalidMoveLabelError
      | Inr q \<Rightarrow> (case rauzy_path q ms of Inl e \<Rightarrow> Inl e | Inr es \<Rightarrow> Inr ((p, m) # es)))"


fun path_end :: "'a rows \<Rightarrow> move_kind list \<Rightarrow> error + 'a rows" where
  "path_end p [] = Inr p"
| "path_end p (m # ms) =
     (case induction_move m p of Inl e \<Rightarrow> Inl InvalidMoveLabelError | Inr q \<Rightarrow> path_end q ms)"

fun end_letter :: "side \<Rightarrow> 'a list \<Rightarrow> 'a" where
  "end_letter RightSide xs = last xs"
| "end_letter LeftSide xs = hd xs"

definition top_letter :: "side \<Rightarrow> 'a rows \<Rightarrow> 'a" where
  "top_letter sd p = end_letter sd (fst p)"

definition bottom_letter :: "side \<Rightarrow> 'a rows \<Rightarrow> 'a" where
  "bottom_letter sd p = end_letter sd (snd p)"

fun winner_letter :: "winner \<Rightarrow> side \<Rightarrow> 'a rows \<Rightarrow> 'a" where
  "winner_letter Top sd p = top_letter sd p"
| "winner_letter Bottom sd p = bottom_letter sd p"

fun loser_letter :: "winner \<Rightarrow> side \<Rightarrow> 'a rows \<Rightarrow> 'a" where
  "loser_letter Top sd p = bottom_letter sd p"
| "loser_letter Bottom sd p = top_letter sd p"

type_synonym 'a matrix = "'a \<Rightarrow> 'a \<Rightarrow> int"

definition identity_matrix :: "'a matrix" where
  "identity_matrix i j = (if i = j then 1 else 0)"

definition elementary_matrix :: "'a \<Rightarrow> 'a \<Rightarrow> 'a matrix" where
  "elementary_matrix w l i j = (if i = w \<and> j = l then 1 else identity_matrix i j)"

fun edge_matrix :: "'a edge \<Rightarrow> 'a matrix" where
  "edge_matrix (p, RauzyMove wn sd) =
     elementary_matrix (winner_letter wn sd p) (loser_letter wn sd p)"
| "edge_matrix (p, LeftRightInversion) = identity_matrix"
| "edge_matrix (p, TopBottomInversion) = identity_matrix"
| "edge_matrix (p, Symmetric) = identity_matrix"

definition mat_mul :: "'a list \<Rightarrow> 'a matrix \<Rightarrow> 'a matrix \<Rightarrow> 'a matrix" where
  "mat_mul al A B i j = sum_list (map (\<lambda>k. A i k * B k j) al)"

fun matrix_from :: "'a list \<Rightarrow> 'a matrix \<Rightarrow> 'a edge list \<Rightarrow> 'a matrix" where
  "matrix_from al M [] = M"
| "matrix_from al M (e # es) = matrix_from al (mat_mul al M (edge_matrix e)) es"

definition path_matrix :: "'a list \<Rightarrow> 'a edge list \<Rightarrow> 'a matrix" where
  "path_matrix al g = matrix_from al identity_matrix g"

text \<open>
  The substitution of a path is built by walking the path: at each absorption step the new
  image of the loser is the image so far of the bottom letter followed by the image so far
  of the top letter, so a move won by the top row appends the image of the winner and a move
  won by the bottom row prepends it. The images are left as they are along an inversion or a
  symmetric edge, where nothing is absorbed. The docstring of \<^verbatim>\<open>FlipSequence\<close> shows the
  same order of the two letters for a move at the left ends.
\<close>

type_synonym 'a morphism = "'a \<Rightarrow> 'a list"

definition absorb :: "'a \<Rightarrow> 'a list \<Rightarrow> 'a morphism" where
  "absorb l word x = (if x = l then word else [x])"

fun edge_substitution :: "'a edge \<Rightarrow> 'a morphism" where
  "edge_substitution (p, RauzyMove wn sd) =
     absorb (loser_letter wn sd p) [bottom_letter sd p, top_letter sd p]"
| "edge_substitution (p, LeftRightInversion) = (\<lambda>x. [x])"
| "edge_substitution (p, TopBottomInversion) = (\<lambda>x. [x])"
| "edge_substitution (p, Symmetric) = (\<lambda>x. [x])"

fun substitution_from :: "'a morphism \<Rightarrow> 'a edge list \<Rightarrow> 'a morphism" where
  "substitution_from s [] = s"
| "substitution_from s (e # es) =
     substitution_from (\<lambda>x. concat (map s (edge_substitution e x))) es"

definition orbit_substitution :: "'a edge list \<Rightarrow> 'a morphism" where
  "orbit_substitution g = substitution_from (\<lambda>x. [x]) g"


definition matrix_rows :: "'a list \<Rightarrow> 'a matrix \<Rightarrow> int list list" where
  "matrix_rows al M = map (\<lambda>i. map (\<lambda>j. M i j) al) al"

text \<open>
  An edge is proper over a set of letters when it is an inversion or a symmetric edge, or an
  induction edge whose winner and loser are two different letters of the set.
\<close>

fun proper_edge :: "'a set \<Rightarrow> 'a edge \<Rightarrow> bool" where
  "proper_edge A (p, RauzyMove wn sd) \<longleftrightarrow>
     winner_letter wn sd p \<in> A \<and> loser_letter wn sd p \<in> A
     \<and> winner_letter wn sd p \<noteq> loser_letter wn sd p"
| "proper_edge A (p, LeftRightInversion) \<longleftrightarrow> True"
| "proper_edge A (p, TopBottomInversion) \<longleftrightarrow> True"
| "proper_edge A (p, Symmetric) \<longleftrightarrow> True"

subsection \<open>Rauzy diagrams\<close>

text \<open>
  Modelled from the spec: \<^verbatim>\<open>rauzy_diagram\<close> is a method of the permutation classes, which are
  not part of the module. The diagram is explored breadth first from the seed: for each
  vertex of the frontier and each enabled move kind the move is applied, skipped when it is
  undefined, and its result, made canonical, is added when it is new. The vertices of a
  labelled diagram are rows; those of a reduced diagram are the canonical representatives of
  rows. The bound counts the vertices that may be expanded; running out of it is an error.
  The five switches of \<^verbatim>\<open>RauzyDiagram\<close> enable the move kinds.
\<close>

definition canonical_rows :: "'a rows \<Rightarrow> nat rows" where
  "canonical_rows p =
     (let l = fst p @ snd p
      in (map (first_position l) (fst p), map (first_position l) (snd p)))"

definition successors :: "('a rows \<Rightarrow> 'a rows) \<Rightarrow> move_kind list \<Rightarrow> 'a rows \<Rightarrow> 'a rows list" where
  "successors canon kinds v =
     concat (map (\<lambda>k. case induction_move k v of Inl e \<Rightarrow> [] | Inr q \<Rightarrow> [canon q]) kinds)"

fun add_new :: "'v list \<Rightarrow> 'v list \<Rightarrow> 'v list \<Rightarrow> 'v list" where
  "add_new vertices new [] = new"
| "add_new vertices new (u # us) =
     (if u \<in> set vertices \<or> u \<in> set new then add_new vertices new us
      else add_new vertices (new @ [u]) us)"

fun explore :: "nat \<Rightarrow> ('v \<Rightarrow> 'v list) \<Rightarrow> 'v list \<Rightarrow> 'v list \<Rightarrow> error + 'v list" where
  "explore bound succs vertices [] = Inr vertices"
| "explore 0 succs vertices (v # frontier) = Inl ExplorationBoundExceeded"
| "explore (Suc bound) succs vertices (v # frontier) =
     (let new = add_new vertices [] (succs v)
      in explore bound succs (vertices @ new) (frontier @ new))"

definition kinds_of :: "bool \<Rightarrow> bool \<Rightarrow> bool \<Rightarrow> bool \<Rightarrow> bool \<Rightarrow> move_kind list" where
  "kinds_of right_induction left_induction left_right_inversion top_bottom_inversion symm =
     (if right_induction then [RauzyMove Top RightSide, RauzyMove Bottom RightSide] else [])
     @ (if left_induction then [RauzyMove Top LeftSide, RauzyMove Bottom LeftSide] else [])
     @ (if left_right_inversion then [LeftRightInversion] else [])
     @ (if top_bottom_inversion then [TopBottomInversion] else [])
     @ (if symm then [Symmetric] else [])"

datatype 'a diagram = LabelledDiagram "'a rows list" | ReducedDiagram "nat rows list"

fun cardinality :: "'a diagram \<Rightarrow> nat" where
  "cardinality (LabelledDiagram vs) = length vs"
| "cardinality (ReducedDiagram vs) = length vs"

definition rauzy_diagram ::
  "nat \<Rightarrow> 'a permutation \<Rightarrow> bool \<Rightarrow> bool \<Rightarrow> bool \<Rightarrow> bool \<Rightarrow> bool \<Rightarrow> error + 'a diagram" where
  "rauzy_diagram bound p right_induction left_induction left_right_inversion
       top_bottom_inversion symm =
     (let seed = (perm_top p, perm_bottom p);
          kinds = kinds_of right_induction left_induction left_right_inversion
                    top_bottom_inversion symm
      in if perm_reduced p
         then map_sum id ReducedDiagram
                (explore bound (successors canonical_rows kinds)
                   [canonical_rows seed] [canonical_rows seed])
         else map_sum id LabelledDiagram
                (explore bound (successors (\<lambda>q. q) kinds) [seed] [seed]))"

text \<open>
  \<^verbatim>\<open>RauzyDiagram\<close> of the module, for permutations without flips: the seed goes through
  \<open>GeneralizedPermutation\<close>, then its diagram is built with the switches handed on.
\<close>

definition RauzyDiagram ::
  "nat \<Rightarrow> 'a list \<Rightarrow> 'a list \<Rightarrow> bool \<Rightarrow> 'a list option
     \<Rightarrow> bool \<Rightarrow> bool \<Rightarrow> bool \<Rightarrow> bool \<Rightarrow> bool \<Rightarrow> error + 'a diagram" where
  "RauzyDiagram bound a0 a1 reduced alphabet right_induction left_induction
       left_right_inversion top_bottom_inversion symm =
     (case GeneralizedPermutation a0 a1 (Some reduced) None alphabet of
        Inl e \<Rightarrow> Inl e
      | Inr p \<Rightarrow> rauzy_diagram bound p right_induction left_induction left_right_inversion
                   top_bottom_inversion symm)"

subsection \<open>Numeric interval exchanges\<close>

text \<open>
  Modelled from the spec: the class of numeric interval exchanges, with its composition,
  inversion and identity test, is not part of the module. An interval exchange is a
  permutation (two rows) with a length for each label; a vector of lengths is indexed by the
  alphabet. The top row cuts the interval into the pieces the map is defined on, the bottom
  row into their images, both from left to right.
\<close>

record ('a, 'n) iet =
  iet_top :: "'a list"
  iet_bottom :: "'a list"
  iet_length :: "'a \<Rightarrow> 'n"

fun length_number :: "('n::zero) length_value \<Rightarrow> 'n" where
  "length_number (Number x) = x"
| "length_number NotANumber = 0"

definition iet_of :: "'a permutation \<times> ('n::zero) length_value list \<Rightarrow> ('a, 'n) iet" where
  "iet_of r =
     \<lparr>iet_top = perm_top (fst r), iet_bottom = perm_bottom (fst r),
      iet_length = (\<lambda>x. length_number (snd r ! first_position (alphabet_of (fst r)) x))\<rparr>"

definition total_length :: "('a, 'n::linordered_field) iet \<Rightarrow> 'n" where
  "total_length T = sum_list (map (iet_length T) (iet_top T))"

definition domain_partition :: "('a, 'n) iet \<Rightarrow> ('a \<times> 'n) list" where
  "domain_partition T = map (\<lambda>x. (x, iet_length T x)) (iet_top T)"

definition range_partition :: "('a, 'n) iet \<Rightarrow> ('a \<times> 'n) list" where
  "range_partition T = map (\<lambda>x. (x, iet_length T x)) (iet_bottom T)"

text \<open>
  Modelled from the spec: \<open>compose S T\<close> is the functional composition, \<open>T\<close> first, defined
  when both act on intervals of the same total length. It is computed on the common
  refinement of the partition of the range of \<open>T\<close> and the partition of the domain of \<open>S\<close>:
  \<open>refine\<close> walks both partitions from the left and cuts a piece at each singularity. A piece
  is labelled by the pair of the labels of \<open>T\<close> and of \<open>S\<close> it lies in (the docstring of the
  module prints the two labels side by side). The top row lists the pieces along the domain
  of \<open>T\<close>, the bottom row along the range of \<open>S\<close>.
\<close>

fun refine ::
  "('a \<times> 'n::linordered_field) list \<Rightarrow> ('b \<times> 'n) list \<Rightarrow> (('a \<times> 'b) \<times> 'n) list" where
  "refine [] ys = []"
| "refine xs [] = []"
| "refine ((a, x) # xs) ((b, y) # ys) =
     (if x < y then ((a, b), x) # refine xs ((b, y - x) # ys)
      else if y < x then ((a, b), y) # refine ((a, x - y) # xs) ys
      else ((a, b), x) # refine xs ys)"

definition pieces_from :: "'a \<Rightarrow> (('a \<times> 'b) \<times> 'n) list \<Rightarrow> ('a \<times> 'b) list" where
  "pieces_from i ps = map fst (filter (\<lambda>p. fst (fst p) = i) ps)"

definition pieces_into :: "'b \<Rightarrow> (('a \<times> 'b) \<times> 'n) list \<Rightarrow> ('a \<times> 'b) list" where
  "pieces_into j ps = map fst (filter (\<lambda>p. snd (fst p) = j) ps)"

definition compose ::
  "('b, 'n::linordered_field) iet \<Rightarrow> ('a, 'n) iet \<Rightarrow> error + ('a \<times> 'b, 'n) iet" where
  "compose S T =
     (if total_length S \<noteq> total_length T then Inl LengthMismatchError
      else let ps = refine (range_partition T) (domain_partition S)
           in Inr \<lparr>iet_top = concat (map (\<lambda>i. pieces_from i ps) (iet_top T)),
                   iet_bottom = concat (map (\<lambda>j. pieces_into j ps) (iet_bottom S)),
                   iet_length = (\<lambda>l. case map_of ps l of Some x \<Rightarrow> x | None \<Rightarrow> 0)\<rparr>)"

text \<open>
  Modelled from the spec: the inverse swaps the roles of the two rows and keeps the lengths;
  an interval exchange is the identity when its top row is literally its bottom row.
\<close>

definition inverse_iet :: "('a, 'n) iet \<Rightarrow> ('a, 'n) iet" where
  "inverse_iet T = \<lparr>iet_top = iet_bottom T, iet_bottom = iet_top T, iet_length = iet_length T\<rparr>"

definition is_identity :: "('a, 'n) iet \<Rightarrow> bool" where
  "is_identity T \<longleftrightarrow> iet_top T = iet_bottom T"

definition rows_of :: "('a, 'n) iet \<Rightarrow> 'a rows" where
  "rows_of T = (iet_top T, iet_bottom T)"

text \<open>The interval exchange of the docstring of the module: rows \<open>a b\<close>, \<open>b a\<close>, lengths \<open>sqrt 2\<close>, \<open>1\<close>.\<close>

definition docstring_iet :: "(string, real) iet" where
  "docstring_iet =
     iet_of (\<lparr>perm_cls = LabelledPermutationIET, perm_top = [''a'', ''b''],
               perm_bottom = [''b'', ''a''], perm_alphabet = None, perm_reduced = False,
               perm_flips = None\<rparr>, [Number (sqrt 2), Number 1])"

subsection \<open>Matrices acting on length vectors\<close>

text \<open>
  A vector of lengths gives a length to each letter; the matrix of a path acts on it by the
  usual product, summed over the alphabet.
\<close>

definition mat_vec ::
  "'a list \<Rightarrow> 'a matrix \<Rightarrow> ('a \<Rightarrow> 'n::linordered_field) \<Rightarrow> 'a \<Rightarrow> 'n" where
  "mat_vec al M v x = sum_list (map (\<lambda>k. of_int (M x k) * v k) al)"

subsection \<open>Rauzy moves of numeric interval exchanges\<close>

text \<open>
  Modelled from the spec: the Rauzy move and the normalization of a numeric interval exchange
  belong to its class, which is not part of the module. The move compares the lengths of the
  rightmost intervals of the two rows; the longer one wins, the induction rule is applied to
  the rows and the length of the winner is reduced by the length of the loser. The move is
  undefined when the two lengths are equal or when the rule is undefined on the rows.
  Normalization rescales the lengths to a target total and fails on a total length of zero.
  Two interval exchanges are equal when they have the same rows and the same lengths on their
  letters.
\<close>

definition iet_rauzy_move :: "('a, 'n::linordered_field) iet \<Rightarrow> error + ('a, 'n) iet" where
  "iet_rauzy_move T =
     (if iet_top T = [] \<or> iet_bottom T = [] then Inl DegenerateInductionError
      else let t = last (iet_top T); b = last (iet_bottom T)
           in if iet_length T b < iet_length T t
              then (case rauzy_move Top (rows_of T) of
                      Inl e \<Rightarrow> Inl e
                    | Inr q \<Rightarrow>
                        Inr \<lparr>iet_top = fst q, iet_bottom = snd q,
                             iet_length = (iet_length T)(t := iet_length T t - iet_length T b)\<rparr>)
              else if iet_length T t < iet_length T b
              then (case rauzy_move Bottom (rows_of T) of
                      Inl e \<Rightarrow> Inl e
                    | Inr q \<Rightarrow>
                        Inr \<lparr>iet_top = fst q, iet_bottom = snd q,
                             iet_length = (iet_length T)(b := iet_length T b - iet_length T t)\<rparr>)
              else Inl DegenerateInductionError)"

fun iet_rauzy_moves :: "nat \<Rightarrow> ('a, 'n::linordered_field) iet \<Rightarrow> error + ('a, 'n) iet" where
  "iet_rauzy_moves 0 T = Inr T"
| "iet_rauzy_moves (Suc n) T =
     (case iet_rauzy_move T of Inl e \<Rightarrow> Inl e | Inr U \<Rightarrow> iet_rauzy_moves n U)"

definition normalize :: "('a, 'n::linordered_field) iet \<Rightarrow> 'n \<Rightarrow> error + ('a, 'n) iet" where
  "normalize T target =
     (if total_length T = 0 then Inl NonPositiveLength
      else Inr \<lparr>iet_top = iet_top T, iet_bottom = iet_bottom T,
                iet_length = (\<lambda>x. iet_length T x * target / total_length T)\<rparr>)"

definition iet_equal :: "('a, 'n) iet \<Rightarrow> ('a, 'n) iet \<Rightarrow> bool" where
  "iet_equal T U \<longleftrightarrow>
     iet_top T = iet_top U \<and> iet_bottom T = iet_bottom U
     \<and> (\<forall>x\<in>set (iet_top T @ iet_bottom T). iet_length T x = iet_length U x)"

text \<open>Lengths in the golden ratio, for the loop \<open>top, bottom\<close> at the rows \<open>a b\<close>, \<open>b a\<close>.\<close>

definition golden_lengths :: "string \<Rightarrow> real" where
  "golden_lengths x = (if x = ''a'' then 1 else (1 + sqrt 5) / 2)"

section \<open>Properties of the model\<close>

subsection \<open>Counting letters\<close>

lemma count_list_1_distinct: "distinct xs \<Longrightarrow> count_list xs x = (if x \<in> set xs then 1 else 0)"
  by (induction xs) auto

lemma count_list_le1_distinct: "(\<forall>x\<in>set xs. count_list xs x = 1) \<Longrightarrow> distinct xs"
proof (induction xs)
  case Nil
  then show ?case by simp
next
  case (Cons a xs)
  have a: "count_list xs a = 0" using Cons.prems by simp
  hence "a \<notin> set xs" by (simp add: count_list_0_iff)
  moreover have "\<forall>x\<in>set xs. count_list xs x = 1"
  proof
    fix x assume x: "x \<in> set xs"
    with Cons.prems have "count_list (a # xs) x = 1" by simp
    thus "count_list xs x = 1" using x \<open>a \<notin> set xs\<close> by (auto split: if_splits)
  qed
  ultimately show ?case using Cons.IH by simp
qed

lemma once_in_each_interval_iff:
  "once_in_each_interval a0 a1 \<longleftrightarrow> distinct a0 \<and> distinct a1 \<and> set a0 = set a1"
proof
  assume h: "once_in_each_interval a0 a1"
  hence all: "\<And>x. x \<in> set a0 \<union> set a1 \<Longrightarrow> count_list a0 x = 1 \<and> count_list a1 x = 1"
    by (auto simp: once_in_each_interval_def list_all_iff)
  have "distinct a0" using all by (intro count_list_le1_distinct) auto
  moreover have "distinct a1" using all by (intro count_list_le1_distinct) auto
  moreover have "set a0 = set a1"
  proof (intro set_eqI iffI)
    fix x assume "x \<in> set a0"
    hence "count_list a1 x = 1" using all by auto
    thus "x \<in> set a1" by (metis count_list_0_iff zero_neq_one)
  next
    fix x assume "x \<in> set a1"
    hence "count_list a0 x = 1" using all by auto
    thus "x \<in> set a0" by (metis count_list_0_iff zero_neq_one)
  qed
  ultimately show "distinct a0 \<and> distinct a1 \<and> set a0 = set a1" by simp
next
  assume "distinct a0 \<and> distinct a1 \<and> set a0 = set a1"
  thus "once_in_each_interval a0 a1"
    by (auto simp: once_in_each_interval_def list_all_iff count_list_1_distinct)
qed

lemma once_imp_twice: "once_in_each_interval a0 a1 \<Longrightarrow> appear_twice (a0 @ a1)"
  by (auto simp: once_in_each_interval_def appear_twice_def list_all_iff count_list_append)

lemma remove1_filter_count1: "count_list xs x = 1 \<Longrightarrow> remove1 x xs = filter (\<lambda>y. y \<noteq> x) xs"
proof (induction xs)
  case Nil
  then show ?case by simp
next
  case (Cons a xs)
  show ?case
  proof (cases "a = x")
    case True
    with Cons.prems have "count_list xs x = 0" by simp
    hence "x \<notin> set xs" by (simp add: count_list_0_iff)
    hence "filter (\<lambda>y. y \<noteq> x) xs = xs" by (induction xs) auto
    with True show ?thesis by simp
  next
    case False
    with Cons show ?thesis by simp
  qed
qed

lemma count_list_filter_neq: "y \<noteq> x \<Longrightarrow> count_list (filter (\<lambda>z. z \<noteq> x) xs) y = count_list xs y"
  by (induction xs) auto

lemma delete_once_letters_filter:
  "distinct letters \<Longrightarrow> (\<forall>x\<in>set letters. count_list b0 x = 1 \<longrightarrow> count_list b1 x = 1) \<Longrightarrow>
   delete_once_letters letters b0 b1 =
     Inr (filter (\<lambda>x. \<not> (x \<in> set letters \<and> count_list b0 x = 1)) b0,
          filter (\<lambda>x. \<not> (x \<in> set letters \<and> count_list b0 x = 1)) b1)"
proof (induction letters arbitrary: b0 b1)
  case Nil
  then show ?case by simp
next
  case (Cons a letters)
  show ?case
  proof (cases "count_list b0 a = 1")
    case True
    hence c1: "count_list b1 a = 1" using Cons.prems by simp
    hence in1: "a \<in> set b1" by (metis count_list_0_iff zero_neq_one)
    let ?b0 = "filter (\<lambda>y. y \<noteq> a) b0" and ?b1 = "filter (\<lambda>y. y \<noteq> a) b1"
    have r0: "remove1 a b0 = ?b0" and r1: "remove1 a b1 = ?b1"
      using True c1 by (simp_all add: remove1_filter_count1)
    have notin: "a \<notin> set letters" and d: "distinct letters" using Cons.prems(1) by auto
    have cnt: "count_list ?b0 y = count_list b0 y \<and> count_list ?b1 y = count_list b1 y"
      if "y \<in> set letters" for y
    proof -
      from that notin have "y \<noteq> a" by auto
      thus ?thesis by (simp add: count_list_filter_neq)
    qed
    have pre: "\<forall>x\<in>set letters. count_list ?b0 x = 1 \<longrightarrow> count_list ?b1 x = 1"
      using Cons.prems(2) cnt by auto
    have ih: "delete_once_letters letters ?b0 ?b1 =
       Inr (filter (\<lambda>x. \<not> (x \<in> set letters \<and> count_list ?b0 x = 1)) ?b0,
            filter (\<lambda>x. \<not> (x \<in> set letters \<and> count_list ?b0 x = 1)) ?b1)"
      by (rule Cons.IH[OF d pre])
    have f0: "filter (\<lambda>x. \<not> (x \<in> set letters \<and> count_list ?b0 x = 1)) ?b0
            = filter (\<lambda>x. \<not> (x \<in> set (a # letters) \<and> count_list b0 x = 1)) b0"
      unfolding filter_filter by (rule filter_cong[OF refl]) (use True cnt in auto)
    have f1: "filter (\<lambda>x. \<not> (x \<in> set letters \<and> count_list ?b0 x = 1)) ?b1
            = filter (\<lambda>x. \<not> (x \<in> set (a # letters) \<and> count_list b0 x = 1)) b1"
      unfolding filter_filter by (rule filter_cong[OF refl]) (use True cnt in auto)
    show ?thesis using True in1 r0 r1 ih f0 f1 by simp
  next
    case False
    have d: "distinct letters" using Cons.prems(1) by auto
    have "delete_once_letters letters b0 b1 =
       Inr (filter (\<lambda>x. \<not> (x \<in> set letters \<and> count_list b0 x = 1)) b0,
            filter (\<lambda>x. \<not> (x \<in> set letters \<and> count_list b0 x = 1)) b1)"
      using Cons.IH[OF d] Cons.prems(2) by simp
    moreover have "filter (\<lambda>x. \<not> (x \<in> set letters \<and> count_list b0 x = 1)) b0
       = filter (\<lambda>x. \<not> (x \<in> set (a # letters) \<and> count_list b0 x = 1)) b0"
      by (rule filter_cong[OF refl]) (use False in auto)
    moreover have "filter (\<lambda>x. \<not> (x \<in> set letters \<and> count_list b0 x = 1)) b1
       = filter (\<lambda>x. \<not> (x \<in> set (a # letters) \<and> count_list b0 x = 1)) b1"
      by (rule filter_cong[OF refl]) (use False in auto)
    ultimately show ?thesis using False by simp
  qed
qed

subsection \<open>The constructors as case distinctions\<close>

lemma Permutation_flips_check:
  "(case (case flips of None \<Rightarrow> None | Some f \<Rightarrow> if f = [] then None else Some f) of
      None \<Rightarrow> True | Some f \<Rightarrow> flips_in_letters f l) = flips_accepted flips l"
  by (auto simp: flips_accepted_def flips_in_letters_def split: option.splits)

lemma Permutation_cases:
  "Permutation a0 a1 reduced flips alphabet =
    (if \<not> flips_accepted flips (a0 @ a1) then Inl InvalidFlipLetter
     else if \<not> once_in_each_interval a0 a1 then Inl (LetterMultiplicityError OnceInEachInterval)
     else Inr \<lparr>perm_cls = iet_class_of (case reduced of None \<Rightarrow> False | Some r \<Rightarrow> r)
                   (case flips of None \<Rightarrow> None | Some f \<Rightarrow> if f = [] then None else Some f),
               perm_top = a0, perm_bottom = a1, perm_alphabet = alphabet,
               perm_reduced = (case reduced of None \<Rightarrow> False | Some r \<Rightarrow> r),
               perm_flips = (case flips of None \<Rightarrow> None | Some f \<Rightarrow> if f = [] then None else Some f)\<rparr>)"
  unfolding Permutation_def Let_def Permutation_flips_check by simp

lemma twice_count_iff:
  assumes "appear_twice (a0 @ a1)" "x \<in> set a0 \<union> set a1"
  shows "count_list a0 x = 1 \<longleftrightarrow> count_list a1 x = 1"
proof -
  have "count_list a0 x + count_list a1 x = 2"
    using assms by (auto simp: appear_twice_def list_all_iff)
  thus ?thesis by arith
qed

lemma delete_once_letters_twice:
  assumes "appear_twice (a0 @ a1)"
  shows "delete_once_letters (remdups (a0 @ a1)) a0 a1 = Inr (without_once_letters a0 a1)"
proof -
  have pre: "\<forall>x\<in>set (remdups (a0 @ a1)). count_list a0 x = 1 \<longrightarrow> count_list a1 x = 1"
    using twice_count_iff[OF assms] by auto
  have e0: "filter (\<lambda>x. \<not> (x \<in> set (remdups (a0 @ a1)) \<and> count_list a0 x = 1)) a0
          = filter (\<lambda>x. \<not> (count_list a0 x = 1 \<and> count_list a1 x = 1)) a0"
    by (rule filter_cong[OF refl]) (use twice_count_iff[OF assms] in auto)
  have e1: "filter (\<lambda>x. \<not> (x \<in> set (remdups (a0 @ a1)) \<and> count_list a0 x = 1)) a1
          = filter (\<lambda>x. \<not> (count_list a0 x = 1 \<and> count_list a1 x = 1)) a1"
    by (rule filter_cong[OF refl]) (use twice_count_iff[OF assms] in auto)
  show ?thesis
    using delete_once_letters_filter[OF distinct_remdups pre] e0 e1
    by (simp add: without_once_letters_def)
qed

lemma GeneralizedPermutation_cases:
  "GeneralizedPermutation a0 a1 reduced flips alphabet =
    (if \<not> flips_accepted flips (a0 @ a1) then Inl InvalidFlipLetter
     else if \<not> appear_twice (a0 @ a1) then Inl (LetterMultiplicityError Twice)
     else if without_once_letters a0 a1 = ([], []) then Permutation a0 a1 reduced flips alphabet
     else if fst (without_once_letters a0 a1) = [] \<or> snd (without_once_letters a0 a1) = []
     then Inl NoAdmissibleLength
     else Inr \<lparr>perm_cls = li_class_of (case reduced of None \<Rightarrow> False | Some r \<Rightarrow> r) flips,
               perm_top = a0, perm_bottom = a1, perm_alphabet = alphabet,
               perm_reduced = (case reduced of None \<Rightarrow> False | Some r \<Rightarrow> r),
               perm_flips = flips\<rparr>)"
proof -
  have P: "Permutation a0 a1 (Some (case reduced of None \<Rightarrow> False | Some r \<Rightarrow> r)) flips alphabet
         = Permutation a0 a1 reduced flips alphabet"
    by (cases reduced) (simp_all add: Permutation_def)
  show ?thesis
  proof (cases "appear_twice (a0 @ a1)")
    case True
    show ?thesis
      unfolding GeneralizedPermutation_def Let_def delete_once_letters_twice[OF True] P
      by (cases "without_once_letters a0 a1") (auto simp: flips_accepted_def)
  next
    case False
    then show ?thesis
      unfolding GeneralizedPermutation_def Let_def by (auto simp: flips_accepted_def)
  qed
qed

lemma once_without: "once_in_each_interval a0 a1 \<Longrightarrow> without_once_letters a0 a1 = ([], [])"
  by (auto simp: once_in_each_interval_def without_once_letters_def list_all_iff filter_empty_conv)

lemma is_iet_class_of: "is_iet_class (iet_class_of r f)"
  by (simp add: iet_class_of_def)

subsection \<open>The loop over the lengths\<close>



lemmas constructor_defs =
  Permutation_def GeneralizedPermutation_def flips_in_letters_def once_in_each_interval_def
  appear_twice_def iet_class_of_def li_class_of_def iet_permutation_def
  IntervalExchangeTransformation_def len_permutation_def Permutation_of_def
  GeneralizedPermutation_of_def alphabet_of_def
  flips_of_def flips_accepted_def without_once_letters_def

subsection \<open>Canonical forms and renamings\<close>

lemma first_position_less: "x \<in> set xs \<Longrightarrow> first_position xs x < length xs"
  by (induction xs) auto

lemma nth_first_position: "x \<in> set xs \<Longrightarrow> xs ! first_position xs x = x"
  by (induction xs) auto

lemma first_position_inj:
  "x \<in> set xs \<Longrightarrow> first_position xs x = first_position xs y \<Longrightarrow> x = y"
  by (induction xs) (auto split: if_splits)

lemma first_position_map:
  "inj_on f (insert x (set xs)) \<Longrightarrow> first_position (map f xs) (f x) = first_position xs x"
proof (induction xs)
  case Nil
  then show ?case by simp
next
  case (Cons a xs)
  have "inj_on f (insert x (set xs))"
    using Cons.prems by (rule inj_on_subset) auto
  with Cons.IH have ih: "first_position (map f xs) (f x) = first_position xs x" by simp
  have "f x = f a \<longleftrightarrow> x = a" using Cons.prems by (auto simp: inj_on_def)
  with ih show ?case by simp
qed

lemma map_first_position_renaming:
  assumes "inj_on f (set l)" "set xs \<subseteq> set l"
  shows "map (first_position (map f l)) (map f xs) = map (first_position l) xs"
proof -
  have "first_position (map f l) (f x) = first_position l x" if "x \<in> set xs" for x
  proof -
    from that assms(2) have "insert x (set l) = set l" by auto
    with assms(1) have "inj_on f (insert x (set l))" by simp
    thus ?thesis by (rule first_position_map)
  qed
  thus ?thesis by simp
qed

lemma renaming_from_positions:
  fixes l :: "'a list" and m :: "'b list"
  assumes eq: "map (first_position l) l = map (first_position m) m"
  defines "f \<equiv> \<lambda>x. m ! first_position l x"
  shows "map f l = m" and "inj_on f (set l)"
proof -
  have len: "length l = length m" using eq by (metis length_map)
  have pos: "first_position l (l ! i) = first_position m (m ! i)" if "i < length l" for i
    using eq that len by (metis nth_map)
  have fi: "f (l ! i) = m ! i" if "i < length l" for i
  proof -
    have "m ! i \<in> set m" using that len by simp
    thus ?thesis unfolding f_def pos[OF that] by (rule nth_first_position)
  qed
  show "map f l = m"
    by (rule nth_equalityI) (use len fi in auto)
  show "inj_on f (set l)"
  proof (rule inj_onI)
    fix x y assume x: "x \<in> set l" and y: "y \<in> set l" and fxy: "f x = f y"
    from x obtain i where i: "i < length l" "l ! i = x" by (auto simp: in_set_conv_nth)
    from y obtain j where j: "j < length l" "l ! j = y" by (auto simp: in_set_conv_nth)
    have "m ! i = m ! j" using fi[OF i(1)] fi[OF j(1)] i j fxy by simp
    hence "first_position m (m ! i) = first_position m (m ! j)" by simp
    hence "first_position l x = first_position l y" using pos[OF i(1)] pos[OF j(1)] i j by simp
    thus "x = y" using x by (rule first_position_inj[rotated])
  qed
qed

lemma canonical_form_iff_renaming:
  fixes p :: "'a permutation" and q :: "'b permutation"
  assumes fp: "set (flips_of p) \<subseteq> set (perm_top p @ perm_bottom p)"
      and fq: "set (flips_of q) \<subseteq> set (perm_top q @ perm_bottom q)"
  shows "reduced_equal p q \<longleftrightarrow> (\<exists>f. renaming f p q)"
proof
  assume "\<exists>f. renaming f p q"
  then obtain f where f: "renaming f p q" ..
  let ?l = "perm_top p @ perm_bottom p"
  have inj: "inj_on f (set ?l)" and t: "perm_top q = map f (perm_top p)"
    and b: "perm_bottom q = map f (perm_bottom p)" and fl: "set (flips_of q) = f ` set (flips_of p)"
    using f by (auto simp: renaming_def)
  have lq: "perm_top q @ perm_bottom q = map f ?l" using t b by simp
  have 1: "map (first_position (map f ?l)) (map f (perm_top p)) = map (first_position ?l) (perm_top p)"
    by (rule map_first_position_renaming[OF inj]) simp
  have 2: "map (first_position (map f ?l)) (map f (perm_bottom p)) = map (first_position ?l) (perm_bottom p)"
    by (rule map_first_position_renaming[OF inj]) simp
  have 3: "first_position (map f ?l) ` f ` set (flips_of p) = first_position ?l ` set (flips_of p)"
  proof -
    have "first_position (map f ?l) (f x) = first_position ?l x" if "x \<in> set (flips_of p)" for x
    proof -
      from that fp have "insert x (set ?l) = set ?l" by auto
      with inj have "inj_on f (insert x (set ?l))" by simp
      thus ?thesis by (rule first_position_map)
    qed
    thus ?thesis by (force simp: image_iff)
  qed
  show "reduced_equal p q"
    unfolding reduced_equal_def canonical_form_def Let_def lq fl
    using 1 2 3 t b by simp
next
  assume r: "reduced_equal p q"
  let ?l = "perm_top p @ perm_bottom p" and ?m = "perm_top q @ perm_bottom q"
  have t: "map (first_position ?l) (perm_top p) = map (first_position ?m) (perm_top q)"
    and b: "map (first_position ?l) (perm_bottom p) = map (first_position ?m) (perm_bottom q)"
    and fl: "first_position ?l ` set (flips_of p) = first_position ?m ` set (flips_of q)"
    using r by (auto simp: reduced_equal_def canonical_form_def Let_def)
  have lt: "length (perm_top p) = length (perm_top q)" using t by (metis length_map)
  have lb: "length (perm_bottom p) = length (perm_bottom q)" using b by (metis length_map)
  have eq: "map (first_position ?l) ?l = map (first_position ?m) ?m"
    using t b by simp
  define f where "f = (\<lambda>x. ?m ! first_position ?l x)"
  have m: "map f ?l = ?m" and inj: "inj_on f (set ?l)"
    unfolding f_def using renaming_from_positions[OF eq] by auto
  have mt: "map f (perm_top p) = perm_top q" and mb: "map f (perm_bottom p) = perm_bottom q"
    using m lt lb by (auto simp: append_eq_append_conv)
  have pos: "first_position ?m (f x) = first_position ?l x" if "x \<in> set ?l" for x
  proof -
    from that have ins: "insert x (set ?l) = set ?l" by auto
    have "inj_on f (insert x (set ?l))" using inj ins by simp
    hence "first_position (map f ?l) (f x) = first_position ?l x"
      by (rule first_position_map)
    thus ?thesis using m by simp
  qed
  have "f ` set (flips_of p) = set (flips_of q)"
  proof (intro set_eqI iffI)
    fix y assume "y \<in> f ` set (flips_of p)"
    then obtain x where x: "x \<in> set (flips_of p)" "y = f x" by auto
    hence xl: "x \<in> set ?l" using fp by auto
    have "first_position ?l x \<in> first_position ?m ` set (flips_of q)" using x fl by auto
    then obtain z where z: "z \<in> set (flips_of q)" "first_position ?l x = first_position ?m z" by auto
    hence "first_position ?m z = first_position ?m (f x)" using pos[OF xl] by simp
    moreover have "z \<in> set ?m" using z fq by auto
    ultimately have "z = f x" by (rule first_position_inj[rotated])
    thus "y \<in> set (flips_of q)" using z x by simp
  next
    fix y assume y: "y \<in> set (flips_of q)"
    hence "first_position ?m y \<in> first_position ?l ` set (flips_of p)" using fl by auto
    then obtain x where x: "x \<in> set (flips_of p)" "first_position ?m y = first_position ?l x" by auto
    hence xl: "x \<in> set ?l" using fp by auto
    have "first_position ?m y = first_position ?m (f x)" using x pos[OF xl] by simp
    moreover have "y \<in> set ?m" using y fq by auto
    ultimately have "y = f x" by (rule first_position_inj[rotated])
    thus "y \<in> f ` set (flips_of p)" using x by auto
  qed
  hence "renaming f p q" using inj mt mb by (simp add: renaming_def)
  thus "\<exists>f. renaming f p q" by (rule exI[of _ f])
qed

subsection \<open>Rebuilding a permutation from an object\<close>


lemma alphabet_of_update: "alphabet_of (p\<lparr>perm_alphabet := Some (alphabet_of p)\<rparr>) = alphabet_of p"
  by (simp add: alphabet_of_def)

lemma permutation_equal_alphabet_update:
  "permutation_equal (p\<lparr>perm_alphabet := Some (alphabet_of p)\<rparr>) p"
  by (simp add: permutation_equal_def labelled_equal_def reduced_equal_def canonical_form_def
      alphabet_of_update flips_of_def)

lemmas equality_defs =
  permutation_equal_def labelled_equal_def reduced_equal_def canonical_form_def renaming_def



lemma not_iet_li_class_of: "\<not> is_iet_class (li_class_of r f)"
  by (simp add: li_class_of_def)

lemma GeneralizedPermutation_kinds:
  assumes "GeneralizedPermutation a0 a1 reduced flips alphabet = Inr p"
  shows "(is_iet_class (perm_cls p) \<and> Permutation a0 a1 reduced flips alphabet = Inr p)
       \<or> (\<not> is_iet_class (perm_cls p) \<and> flips_accepted flips (a0 @ a1) \<and> appear_twice (a0 @ a1)
           \<and> fst (without_once_letters a0 a1) \<noteq> [] \<and> snd (without_once_letters a0 a1) \<noteq> []
           \<and> p = \<lparr>perm_cls = li_class_of (case reduced of None \<Rightarrow> False | Some r \<Rightarrow> r) flips,
                    perm_top = a0, perm_bottom = a1, perm_alphabet = alphabet,
                    perm_reduced = (case reduced of None \<Rightarrow> False | Some r \<Rightarrow> r),
                    perm_flips = flips\<rparr>)"
proof (cases "without_once_letters a0 a1 = ([], [])")
  case True
  with assms have P: "Permutation a0 a1 reduced flips alphabet = Inr p"
    by (auto simp: GeneralizedPermutation_cases split: if_splits)
  hence "is_iet_class (perm_cls p)"
    by (auto simp: Permutation_cases is_iet_class_of split: if_splits)
  with P show ?thesis by simp
next
  case False
  with assms show ?thesis
    by (cases "without_once_letters a0 a1")
       (auto simp: GeneralizedPermutation_cases not_iet_li_class_of split: if_splits)
qed


lemma Permutation_of_linear_involution:
  assumes "GeneralizedPermutation a0 a1 reduced flips alphabet = Inr p"
    and "\<not> is_iet_class (perm_cls p)"
  shows "Permutation_of p None None None = Inl (LetterMultiplicityError OnceInEachInterval)"
proof -
  from GeneralizedPermutation_kinds[OF assms(1)] assms(2)
  have fa: "flips_accepted flips (a0 @ a1)"
    and ne: "fst (without_once_letters a0 a1) \<noteq> []"
    and p: "p = \<lparr>perm_cls = li_class_of (case reduced of None \<Rightarrow> False | Some r \<Rightarrow> r) flips,
                    perm_top = a0, perm_bottom = a1, perm_alphabet = alphabet,
                    perm_reduced = (case reduced of None \<Rightarrow> False | Some r \<Rightarrow> r),
                    perm_flips = flips\<rparr>"
    by auto
  have fa': "flips_accepted (Some (flips_of p)) (a0 @ a1)"
    using fa by (auto simp: p flips_of_def flips_accepted_def flips_in_letters_def split: option.splits)
  have "\<not> once_in_each_interval a0 a1" using ne once_without[of a0 a1] by auto
  thus ?thesis
    unfolding Permutation_of_def using fa' by (simp add: Permutation_cases p)
qed

subsection \<open>Matrices and substitutions of paths\<close>

lemma sum_list_delta:
  "distinct al \<Longrightarrow> a \<in> set al \<Longrightarrow>
   (\<Sum>k\<leftarrow>al. f k * (if k = a then 1 else 0)) = (f a :: int)"
proof (induction al)
  case Nil
  then show ?case by simp
next
  case (Cons x al)
  show ?case
  proof (cases "x = a")
    case True
    with Cons.prems have "a \<notin> set al" by simp
    hence "(\<Sum>k\<leftarrow>al. f k * (if k = a then 1 else 0)) = 0"
      by (induction al) auto
    with True show ?thesis by simp
  next
    case False
    with Cons show ?thesis by simp
  qed
qed

lemma sum_list_two_deltas:
  assumes "distinct al" "a \<in> set al" "b \<in> set al" "a \<noteq> b"
  shows "(\<Sum>k\<leftarrow>al. f k * (if k = a then 1 else if k = b then 1 else 0)) = (f a + f b :: int)"
proof -
  have "(\<Sum>k\<leftarrow>al. f k * (if k = a then 1 else if k = b then 1 else 0))
      = (\<Sum>k\<leftarrow>al. f k * (if k = a then 1 else 0) + f k * (if k = b then 1 else 0))"
    by (rule arg_cong[where f = sum_list]) (use assms(4) in auto)
  also have "\<dots> = (\<Sum>k\<leftarrow>al. f k * (if k = a then 1 else 0))
                + (\<Sum>k\<leftarrow>al. f k * (if k = b then 1 else 0))"
    by (simp add: sum_list_addf)
  finally show ?thesis using assms by (simp add: sum_list_delta)
qed

lemma mat_mul_identity:
  assumes d: "distinct al" and y: "y \<in> set al"
  shows "mat_mul al M identity_matrix x y = M x y"
proof -
  have "mat_mul al M identity_matrix x y = (\<Sum>k\<leftarrow>al. M x k * (if k = y then 1 else 0))"
    unfolding mat_mul_def identity_matrix_def ..
  thus ?thesis using sum_list_delta[OF d y] by simp
qed

lemma mat_mul_elementary:
  assumes d: "distinct al" and w: "w \<in> set al" and l: "l \<in> set al"
    and ne: "w \<noteq> l" and y: "y \<in> set al"
  shows "mat_mul al M (elementary_matrix w l) x y = (if y = l then M x w + M x l else M x y)"
proof (cases "y = l")
  case True
  have "mat_mul al M (elementary_matrix w l) x y
      = (\<Sum>k\<leftarrow>al. M x k * (if k = w then 1 else if k = l then 1 else 0))"
    unfolding mat_mul_def elementary_matrix_def identity_matrix_def True
    by (rule arg_cong[where f = sum_list]) auto
  thus ?thesis using True sum_list_two_deltas[OF d w l ne] by simp
next
  case False
  have "mat_mul al M (elementary_matrix w l) x y = (\<Sum>k\<leftarrow>al. M x k * (if k = y then 1 else 0))"
    unfolding mat_mul_def elementary_matrix_def identity_matrix_def
    by (rule arg_cong[where f = sum_list]) (use False in auto)
  thus ?thesis using False sum_list_delta[OF d y] by simp
qed





lemma set_insert_after: "set (insert_after w l xs) \<subseteq> insert l (set xs)"
  by (induction xs) auto

lemma set_butlast_subset: "set (butlast xs) \<subseteq> set xs"
  by (induction xs) auto

lemma rauzy_move_ends:
  assumes "rauzy_move wn p = Inr q"
  shows "fst p \<noteq> [] \<and> snd p \<noteq> [] \<and> last (fst p) \<noteq> last (snd p)"
proof -
  obtain a0 a1 where p: "p = (a0, a1)" by (cases p)
  from assms show ?thesis
    by (cases wn) (auto simp: p rauzy_move_def Let_def split: if_splits)
qed

lemma rauzy_move_letters:
  assumes "rauzy_move wn p = Inr q"
  shows "set (fst q) \<union> set (snd q) \<subseteq> set (fst p) \<union> set (snd p)"
proof -
  let ?wrow = "winner_row wn p" and ?lrow = "loser_row wn p"
  from assms have ne: "?wrow \<noteq> []" "?lrow \<noteq> []"
    by (auto simp: rauzy_move_def Let_def split: if_splits)
  have rows: "set ?wrow \<union> set ?lrow = set (fst p) \<union> set (snd p)"
    by (cases wn; cases p) auto
  have last_in: "last ?lrow \<in> set ?lrow" using ne by simp
  have bl: "set (butlast ?lrow) \<subseteq> set ?lrow" by (rule set_butlast_subset)
  have sub: "set (fst (with_rows wn a b)) \<union> set (snd (with_rows wn a b)) = set a \<union> set b"
    for a b :: "'a list"
    by (cases wn) auto
  from assms have q: "q = (if last ?wrow \<in> set (butlast ?lrow)
                       then with_rows wn ?wrow (insert_after (last ?wrow) (last ?lrow) (butlast ?lrow))
                       else with_rows wn (insert_after (last ?wrow) (last ?lrow) ?wrow) (butlast ?lrow))"
    by (auto simp: rauzy_move_def Let_def split: if_splits)
  show ?thesis
  proof (cases "last ?wrow \<in> set (butlast ?lrow)")
    case True
    hence "set (fst q) \<union> set (snd q)
         = set ?wrow \<union> set (insert_after (last ?wrow) (last ?lrow) (butlast ?lrow))"
      using q sub by simp
    also have "\<dots> \<subseteq> set ?wrow \<union> set ?lrow"
      using set_insert_after[of "last ?wrow" "last ?lrow" "butlast ?lrow"] last_in bl by auto
    finally show ?thesis using rows by simp
  next
    case False
    hence "set (fst q) \<union> set (snd q)
         = set (insert_after (last ?wrow) (last ?lrow) ?wrow) \<union> set (butlast ?lrow)"
      using q sub by simp
    also have "\<dots> \<subseteq> set ?wrow \<union> set ?lrow"
      using set_insert_after[of "last ?wrow" "last ?lrow" ?wrow] last_in bl by auto
    finally show ?thesis using rows by simp
  qed
qed

lemma left_move_result:
  assumes "induction_move (RauzyMove wn LeftSide) p = Inr q"
  shows "\<exists>r. rauzy_move wn (left_right_inverse p) = Inr r \<and> q = left_right_inverse r"
  using assms by (cases "rauzy_move wn (left_right_inverse p)") auto

lemma induction_move_letters:
  assumes "induction_move k p = Inr q"
  shows "set (fst q) \<union> set (snd q) \<subseteq> set (fst p) \<union> set (snd p)"
proof (cases k)
  case (RauzyMove wn sd)
  show ?thesis
  proof (cases sd)
    case RightSide
    thus ?thesis using assms RauzyMove rauzy_move_letters[of wn p q] by simp
  next
    case LeftSide
    with assms RauzyMove obtain r where r: "rauzy_move wn (left_right_inverse p) = Inr r"
      and q: "q = left_right_inverse r"
      using left_move_result by blast
    show ?thesis
      using rauzy_move_letters[OF r] by (simp add: q left_right_inverse_def)
  qed
next
  case LeftRightInversion
  thus ?thesis using assms by (auto simp: left_right_inverse_def)
next
  case TopBottomInversion
  thus ?thesis using assms by (auto simp: top_bottom_inverse_def)
next
  case Symmetric
  thus ?thesis using assms by (auto simp: symmetric_def top_bottom_inverse_def left_right_inverse_def)
qed

lemma induction_move_proper:
  assumes "induction_move k p = Inr q"
  shows "proper_edge (set (fst p) \<union> set (snd p)) (p, k)"
proof (cases k)
  case (RauzyMove wn sd)
  show ?thesis
  proof (cases sd)
    case RightSide
    with assms RauzyMove have "rauzy_move wn p = Inr q" by simp
    from rauzy_move_ends[OF this] show ?thesis
      by (cases wn) (auto simp: RauzyMove RightSide top_letter_def bottom_letter_def)
  next
    case LeftSide
    with assms RauzyMove obtain r where r: "rauzy_move wn (left_right_inverse p) = Inr r"
      using left_move_result by blast
    from rauzy_move_ends[OF r] have "fst p \<noteq> []" "snd p \<noteq> []" "hd (fst p) \<noteq> hd (snd p)"
      by (simp_all add: left_right_inverse_def last_rev)
    thus ?thesis
      by (cases wn) (auto simp: RauzyMove LeftSide top_letter_def bottom_letter_def)
  qed
qed simp_all

lemma proper_edge_mono: "proper_edge A e \<Longrightarrow> A \<subseteq> B \<Longrightarrow> proper_edge B e"
  by (induction A e rule: proper_edge.induct) auto

lemma rauzy_path_edge_letters:
  assumes "rauzy_path p ms = Inr g" "set (fst p) \<union> set (snd p) \<subseteq> A"
  shows "\<forall>e\<in>set g. proper_edge A e"
  using assms
proof (induction ms arbitrary: p g)
  case Nil
  then show ?case by simp
next
  case (Cons m ms)
  from Cons.prems(1) obtain q es where q: "induction_move m p = Inr q"
    and es: "rauzy_path q ms = Inr es" and g: "g = (p, m) # es"
    by (auto split: sum.splits)
  have "set (fst q) \<union> set (snd q) \<subseteq> A"
    using induction_move_letters[OF q] Cons.prems(2) by blast
  from Cons.IH[OF es this] proper_edge_mono[OF induction_move_proper[OF q] Cons.prems(2)] g
  show ?case by auto
qed


subsection \<open>The examples of the docstrings\<close>

text \<open>
  The model of the induction, of the paths and of the diagrams gives the values the module
  shows in the docstring of \<^verbatim>\<open>RauzyDiagram\<close>: the two loops at the permutation with rows
  \<open>a b c\<close> and \<open>c b a\<close>, the matrix and the substitution of their concatenation, and the
  numbers of permutations of four diagrams of interval exchanges, one of them with the
  symmetric move enabled.
\<close>

lemma docstring_loops:
  "path_end ([''a'', ''b'', ''c''], [''c'', ''b'', ''a''])
     [RauzyMove Top RightSide, RauzyMove Bottom RightSide, RauzyMove Top RightSide]
     = Inr ([''a'', ''b'', ''c''], [''c'', ''b'', ''a''])
   \<and> path_end ([''a'', ''b'', ''c''], [''c'', ''b'', ''a''])
     [RauzyMove Bottom RightSide, RauzyMove Top RightSide, RauzyMove Bottom RightSide]
     = Inr ([''a'', ''b'', ''c''], [''c'', ''b'', ''a''])"
  by code_simp

lemma docstring_path:
  "rauzy_path ([''a'', ''b'', ''c''], [''c'', ''b'', ''a''])
     [RauzyMove Top RightSide, RauzyMove Bottom RightSide, RauzyMove Top RightSide,
      RauzyMove Bottom RightSide, RauzyMove Top RightSide, RauzyMove Bottom RightSide]
     = Inr [(([''a'', ''b'', ''c''], [''c'', ''b'', ''a'']), RauzyMove Top RightSide),
            (([''a'', ''b'', ''c''], [''c'', ''a'', ''b'']), RauzyMove Bottom RightSide),
            (([''a'', ''b'', ''c''], [''c'', ''a'', ''b'']), RauzyMove Top RightSide),
            (([''a'', ''b'', ''c''], [''c'', ''b'', ''a'']), RauzyMove Bottom RightSide),
            (([''a'', ''c'', ''b''], [''c'', ''b'', ''a'']), RauzyMove Top RightSide),
            (([''a'', ''c'', ''b''], [''c'', ''b'', ''a'']), RauzyMove Bottom RightSide)]"
  by code_simp

lemma docstring_matrix:
  "matrix_rows [''a'', ''b'', ''c'']
     (path_matrix [''a'', ''b'', ''c'']
        [(([''a'', ''b'', ''c''], [''c'', ''b'', ''a'']), RauzyMove Top RightSide),
         (([''a'', ''b'', ''c''], [''c'', ''a'', ''b'']), RauzyMove Bottom RightSide),
         (([''a'', ''b'', ''c''], [''c'', ''a'', ''b'']), RauzyMove Top RightSide),
         (([''a'', ''b'', ''c''], [''c'', ''b'', ''a'']), RauzyMove Bottom RightSide),
         (([''a'', ''c'', ''b''], [''c'', ''b'', ''a'']), RauzyMove Top RightSide),
         (([''a'', ''c'', ''b''], [''c'', ''b'', ''a'']), RauzyMove Bottom RightSide)])
     = [[1, 1, 1], [2, 4, 1], [2, 3, 2]]"
  by code_simp

lemma docstring_substitution:
  "map (orbit_substitution
        [(([''a'', ''b'', ''c''], [''c'', ''b'', ''a'']), RauzyMove Top RightSide),
         (([''a'', ''b'', ''c''], [''c'', ''a'', ''b'']), RauzyMove Bottom RightSide),
         (([''a'', ''b'', ''c''], [''c'', ''a'', ''b'']), RauzyMove Top RightSide),
         (([''a'', ''b'', ''c''], [''c'', ''b'', ''a'']), RauzyMove Bottom RightSide),
         (([''a'', ''c'', ''b''], [''c'', ''b'', ''a'']), RauzyMove Top RightSide),
         (([''a'', ''c'', ''b''], [''c'', ''b'', ''a'']), RauzyMove Bottom RightSide)])
     [''a'', ''b'', ''c'']
     = [[''a'', ''c'', ''b'', ''b'', ''c''],
        [''a'', ''c'', ''b'', ''b'', ''c'', ''b'', ''b'', ''c''],
        [''a'', ''c'', ''b'', ''c'']]"
  by code_simp

lemma docstring_cardinalities:
  "map_sum id cardinality
     (RauzyDiagram 100 [''a'', ''b'', ''c''] [''c'', ''b'', ''a''] False None
        True False False False False) = Inr 3
   \<and> map_sum id cardinality
       (RauzyDiagram 100 [''a'', ''b'', ''c'', ''d''] [''d'', ''b'', ''c'', ''a''] False None
          True False False False False) = Inr 12
   \<and> map_sum id cardinality
       (RauzyDiagram 100 [''a'', ''b'', ''c'', ''d''] [''d'', ''b'', ''c'', ''a''] True None
          True False False False False) = Inr 6"
  by code_simp

lemma docstring_symmetric_cardinality:
  "map_sum id cardinality
     (RauzyDiagram 200 [''a'', ''b'', ''c'', ''d''] [''d'', ''b'', ''c'', ''a''] False None
        True False False False True) = Inr 144"
  by code_simp

text \<open>
  The two substitutions of the docstring of \<^verbatim>\<open>FlipSequence\<close>, at the rows \<open>a b\<close> and \<open>b a\<close>:
  the moves \<open>t, b\<close> give \<open>a->ab, b->abb\<close> and the moves \<open>tr, bl\<close> give \<open>a->bab, b->b\<close>.
\<close>

lemma docstring_flip_sequences:
  "map_sum id (\<lambda>g. map (orbit_substitution g) [''a'', ''b''])
     (rauzy_path ([''a'', ''b''], [''b'', ''a''])
        [RauzyMove Top RightSide, RauzyMove Bottom RightSide])
     = Inr [[''a'', ''b''], [''a'', ''b'', ''b'']]
   \<and> map_sum id (\<lambda>g. map (orbit_substitution g) [''a'', ''b''])
     (rauzy_path ([''a'', ''b''], [''b'', ''a''])
        [RauzyMove Top RightSide, RauzyMove Bottom LeftSide])
     = Inr [[''b'', ''a'', ''b''], [''b'']]"
  by code_simp

subsection \<open>Diagrams of linear involutions\<close>

text \<open>
  On the linear involution with rows \<open>a b b\<close> and \<open>c c a\<close> the words of the spec for the
  induction do not give the diagram of the module: followed as they stand they reach rows
  such as \<open>a b c c a b\<close> over an empty row, and the exploration closes with 13 vertices in
  both modes, where the docstring of the module shows 12 and 4. The rule of the library for
  a winner that occurs twice in its own row, and the condition under which it refuses a
  move there, are in the permutation classes, not in the module.
\<close>

lemma induction_as_worded_abb_cca:
  "map_sum id cardinality
     (RauzyDiagram 100 [''a'', ''b'', ''b''] [''c'', ''c'', ''a''] False None
        True False False False False) = Inr 13
   \<and> map_sum id cardinality
     (RauzyDiagram 100 [''a'', ''b'', ''b''] [''c'', ''c'', ''a''] True None
        True False False False False) = Inr 13
   \<and> path_end ([''a'', ''b'', ''b''], [''c'', ''c'', ''a''])
       [RauzyMove Top RightSide, RauzyMove Top RightSide, RauzyMove Top RightSide]
     = Inr ([''a'', ''b'', ''c'', ''c'', ''a'', ''b''], [])"
  by code_simp

subsection \<open>Composition with the inverse\<close>

lemma refine_same:
  "refine (map (\<lambda>x. (x, f x)) xs) (map (\<lambda>x. (x, f x)) xs) = map (\<lambda>x. ((x, x), f x)) xs"
  by (induction xs) auto

lemma filter_eq_distinct: "distinct xs \<Longrightarrow> i \<in> set xs \<Longrightarrow> filter (\<lambda>x. x = i) xs = [i]"
  by (induction xs) (auto simp: filter_empty_conv)

lemma pieces_from_diagonal:
  assumes "distinct xs" "i \<in> set xs"
  shows "pieces_from i (map (\<lambda>x. ((x, x), f x)) xs) = [(i, i)]"
proof -
  have "pieces_from i (map (\<lambda>x. ((x, x), f x)) xs) = map (\<lambda>x. (x, x)) (filter (\<lambda>x. x = i) xs)"
    by (simp add: pieces_from_def filter_map o_def)
  thus ?thesis using filter_eq_distinct[OF assms] by simp
qed

lemma pieces_into_diagonal:
  assumes "distinct xs" "i \<in> set xs"
  shows "pieces_into i (map (\<lambda>x. ((x, x), f x)) xs) = [(i, i)]"
proof -
  have "pieces_into i (map (\<lambda>x. ((x, x), f x)) xs) = map (\<lambda>x. (x, x)) (filter (\<lambda>x. x = i) xs)"
    by (simp add: pieces_into_def filter_map o_def)
  thus ?thesis using filter_eq_distinct[OF assms] by simp
qed

lemma concat_singletons:
  "(\<And>i. i \<in> set ys \<Longrightarrow> g i = [h i]) \<Longrightarrow> concat (map g ys) = map h ys"
  by (induction ys) auto

lemma total_length_inverse:
  fixes T :: "('a, 'n::linordered_field) iet"
  assumes "once_in_each_interval (iet_top T) (iet_bottom T)"
  shows "total_length (inverse_iet T) = total_length T"
proof -
  from assms have d0: "distinct (iet_top T)" and d1: "distinct (iet_bottom T)"
    and s: "set (iet_top T) = set (iet_bottom T)"
    by (simp_all add: once_in_each_interval_iff)
  have "sum_list (map (iet_length T) (iet_bottom T)) = sum (iet_length T) (set (iet_bottom T))"
    using d1 by (simp add: sum_list_distinct_conv_sum_set)
  also have "\<dots> = sum_list (map (iet_length T) (iet_top T))"
    using d0 s by (simp add: sum_list_distinct_conv_sum_set)
  finally show ?thesis by (simp add: total_length_def inverse_iet_def)
qed

lemma compose_inverse_left:
  fixes T :: "('a, 'n::linordered_field) iet"
  assumes "once_in_each_interval (iet_top T) (iet_bottom T)"
  shows "\<exists>U. compose (inverse_iet T) T = Inr U
           \<and> iet_top U = map (\<lambda>i. (i, i)) (iet_top T) \<and> iet_bottom U = map (\<lambda>i. (i, i)) (iet_top T)"
proof -
  from assms have d1: "distinct (iet_bottom T)" and s: "set (iet_top T) = set (iet_bottom T)"
    by (simp_all add: once_in_each_interval_iff)
  let ?ps = "map (\<lambda>x. ((x, x), iet_length T x)) (iet_bottom T)"
  have ps: "refine (range_partition T) (domain_partition (inverse_iet T)) = ?ps"
    unfolding range_partition_def domain_partition_def inverse_iet_def
    by (simp only: iet.simps refine_same)
  have t: "concat (map (\<lambda>i. pieces_from i ?ps) (iet_top T)) = map (\<lambda>i. (i, i)) (iet_top T)"
  proof (rule concat_singletons)
    fix i assume "i \<in> set (iet_top T)"
    hence "i \<in> set (iet_bottom T)" using s by simp
    thus "pieces_from i ?ps = [(i, i)]" by (rule pieces_from_diagonal[OF d1])
  qed
  have b: "concat (map (\<lambda>j. pieces_into j ?ps) (iet_bottom (inverse_iet T)))
         = map (\<lambda>i. (i, i)) (iet_top T)"
  proof -
    have "concat (map (\<lambda>j. pieces_into j ?ps) (iet_top T)) = map (\<lambda>i. (i, i)) (iet_top T)"
    proof (rule concat_singletons)
      fix i assume "i \<in> set (iet_top T)"
      hence "i \<in> set (iet_bottom T)" using s by simp
      thus "pieces_into i ?ps = [(i, i)]" by (rule pieces_into_diagonal[OF d1])
    qed
    thus ?thesis by (simp add: inverse_iet_def)
  qed
  show ?thesis
    unfolding compose_def Let_def ps using total_length_inverse[OF assms] t b by simp
qed

lemma compose_inverse_right:
  fixes T :: "('a, 'n::linordered_field) iet"
  assumes "once_in_each_interval (iet_top T) (iet_bottom T)"
  shows "\<exists>V. compose T (inverse_iet T) = Inr V
           \<and> iet_top V = map (\<lambda>i. (i, i)) (iet_bottom T)
           \<and> iet_bottom V = map (\<lambda>i. (i, i)) (iet_bottom T)"
proof -
  from assms have d0: "distinct (iet_top T)" and s: "set (iet_top T) = set (iet_bottom T)"
    by (simp_all add: once_in_each_interval_iff)
  let ?ps = "map (\<lambda>x. ((x, x), iet_length T x)) (iet_top T)"
  have ps: "refine (range_partition (inverse_iet T)) (domain_partition T) = ?ps"
    unfolding range_partition_def domain_partition_def inverse_iet_def
    by (simp only: iet.simps refine_same)
  have t: "concat (map (\<lambda>i. pieces_from i ?ps) (iet_top (inverse_iet T)))
         = map (\<lambda>i. (i, i)) (iet_bottom T)"
  proof -
    have "concat (map (\<lambda>i. pieces_from i ?ps) (iet_bottom T)) = map (\<lambda>i. (i, i)) (iet_bottom T)"
    proof (rule concat_singletons)
      fix i assume "i \<in> set (iet_bottom T)"
      hence "i \<in> set (iet_top T)" using s by simp
      thus "pieces_from i ?ps = [(i, i)]" by (rule pieces_from_diagonal[OF d0])
    qed
    thus ?thesis by (simp add: inverse_iet_def)
  qed
  have b: "concat (map (\<lambda>j. pieces_into j ?ps) (iet_bottom T)) = map (\<lambda>i. (i, i)) (iet_bottom T)"
  proof (rule concat_singletons)
    fix i assume "i \<in> set (iet_bottom T)"
    hence "i \<in> set (iet_top T)" using s by simp
    thus "pieces_into i ?ps = [(i, i)]" by (rule pieces_into_diagonal[OF d0])
  qed
  show ?thesis
    unfolding compose_def Let_def ps using total_length_inverse[OF assms] t b by simp
qed

lemma IntervalExchangeTransformation_rows_valid:
  assumes "IntervalExchangeTransformation (RowsTuple a0 a1) lengths = Inr r"
  shows "once_in_each_interval (iet_top (iet_of r)) (iet_bottom (iet_of r))"
proof -
  from assms obtain p where p: "Permutation a0 a1 None None None = Inr p" and r: "fst r = p"
    by (auto simp: IntervalExchangeTransformation_def iet_permutation_def
        split: sum.splits if_splits option.splits)
  from p have "once_in_each_interval a0 a1" "perm_top p = a0" "perm_bottom p = a1"
    by (auto simp: Permutation_cases split: if_splits)
  thus ?thesis using r by (simp add: iet_of_def)
qed

lemma sqrt_2_bounds: "1 < sqrt 2" "sqrt 2 < 2"
  by (simp_all add: real_less_rsqrt real_less_lsqrt)

lemma docstring_iet_eq:
  "docstring_iet = \<lparr>iet_top = [''a'', ''b''], iet_bottom = [''b'', ''a''],
      iet_length = (\<lambda>x. length_number
         ([Number (sqrt 2), Number 1] ! first_position [''a'', ''b''] x))\<rparr>"
  by (simp add: docstring_iet_def iet_of_def alphabet_of_def)

lemma docstring_iet_lengths:
  "iet_length docstring_iet ''a'' = sqrt 2" "iet_length docstring_iet ''b'' = 1"
  by (simp_all add: docstring_iet_eq)

lemma docstring_constructor:
  "map_sum id iet_of
     (IntervalExchangeTransformation (RowsTuple [''a'', ''b''] [''b'', ''a''])
        [Number (sqrt 2), Number 1]) = Inr docstring_iet"
  by (simp add: constructor_defs docstring_iet_def)

text \<open>
  The square of the interval exchange of the docstring: the module prints the permutation
  \<open>aa ab ba\<close> over \<open>ab ba aa\<close>.
\<close>

lemma docstring_square:
  "map_sum id rows_of (compose docstring_iet docstring_iet)
     = Inr ([(''a'', ''a''), (''a'', ''b''), (''b'', ''a'')],
            [(''a'', ''b''), (''b'', ''a''), (''a'', ''a'')])"
  using sqrt_2_bounds
  by (simp add: compose_def rows_of_def total_length_def range_partition_def
      domain_partition_def pieces_from_def pieces_into_def docstring_iet_eq)

subsection \<open>Fixed vectors of the matrix of a path\<close>

text \<open>
  The matrix of a path that has at least one induction edge dominates the identity entry by
  entry and has a positive entry off the diagonal, in the row of the winner and the column
  of the loser of such an edge. So it moves every positive vector: no positive vector of
  lengths \<open>v\<close> satisfies \<open>v = M v\<close>.
\<close>

lemma edge_matrix_grows:
  assumes d: "distinct al" and e: "proper_edge (set al) e"
    and nonneg: "\<forall>x. \<forall>y\<in>set al. 0 \<le> M x y" and y: "y \<in> set al"
  shows "M x y \<le> mat_mul al M (edge_matrix e) x y"
proof -
  obtain p k where pk: "e = (p, k)" by (cases e)
  show ?thesis
  proof (cases k)
    case (RauzyMove wn sd)
    from e have w: "winner_letter wn sd p \<in> set al" and l: "loser_letter wn sd p \<in> set al"
      and ne: "winner_letter wn sd p \<noteq> loser_letter wn sd p"
      by (simp_all add: pk RauzyMove)
    show ?thesis
      using mat_mul_elementary[OF d w l ne y, of M x] nonneg w
      by (auto simp: pk RauzyMove)
  qed (simp_all add: pk mat_mul_identity[OF d y])
qed

lemma matrix_from_grows:
  assumes d: "distinct al"
    and edges: "\<forall>e\<in>set g. proper_edge (set al) e"
    and nonneg: "\<forall>x. \<forall>y\<in>set al. 0 \<le> M x y"
  shows "\<forall>x. \<forall>y\<in>set al. M x y \<le> matrix_from al M g x y"
  using edges nonneg
proof (induction g arbitrary: M)
  case Nil
  then show ?case by simp
next
  case (Cons e g)
  have e: "proper_edge (set al) e" and rest: "\<forall>e\<in>set g. proper_edge (set al) e"
    using Cons.prems(1) by simp_all
  let ?M = "mat_mul al M (edge_matrix e)"
  have step: "M x y \<le> ?M x y" if "y \<in> set al" for x y
    by (rule edge_matrix_grows[OF d e Cons.prems(2) that])
  have nn: "\<forall>x. \<forall>y\<in>set al. 0 \<le> ?M x y"
  proof (intro allI ballI)
    fix x y assume y: "y \<in> set al"
    have "0 \<le> M x y" using Cons.prems(2) y by simp
    also have "\<dots> \<le> ?M x y" by (rule step[OF y])
    finally show "0 \<le> ?M x y" .
  qed
  show ?case
  proof (intro allI ballI)
    fix x y assume y: "y \<in> set al"
    have "M x y \<le> ?M x y" by (rule step[OF y])
    also have "\<dots> \<le> matrix_from al ?M g x y" using Cons.IH[OF rest nn] y by simp
    finally show "M x y \<le> matrix_from al M (e # g) x y" by simp
  qed
qed

lemma matrix_from_append:
  "matrix_from al M (g @ h) = matrix_from al (matrix_from al M g) h"
  by (induction g arbitrary: M) auto

lemma rauzy_path_kinds: "rauzy_path p ms = Inr g \<Longrightarrow> map snd g = ms"
proof (induction ms arbitrary: p g)
  case Nil
  then show ?case by simp
next
  case (Cons m ms)
  from Cons.prems obtain q es where "rauzy_path q ms = Inr es" "g = (p, m) # es"
    by (auto split: sum.splits)
  thus ?case using Cons.IH by auto
qed

lemma sum_list_two_members:
  fixes f :: "'a \<Rightarrow> 'n::linordered_field"
  assumes "distinct al" "a \<in> set al" "b \<in> set al" "a \<noteq> b" "\<forall>k\<in>set al. 0 \<le> f k"
  shows "f a + f b \<le> sum_list (map f al)"
proof -
  have "sum_list (map f al) = sum f (set al)"
    using assms(1) by (simp add: sum_list_distinct_conv_sum_set)
  moreover have "sum f {a, b} \<le> sum f (set al)"
    by (rule sum_mono2) (use assms in auto)
  moreover have "sum f {a, b} = f a + f b" using assms(4) by simp
  ultimately show ?thesis by simp
qed

lemma path_matrix_no_positive_fixed_vector:
  fixes v :: "'a \<Rightarrow> 'n::linordered_field"
  assumes d: "distinct al" and letters: "set a0 \<union> set a1 \<subseteq> set al"
    and path: "rauzy_path (a0, a1) moves = Inr g" and absorbs: "RauzyMove wn sd \<in> set moves"
    and pos: "\<forall>x\<in>set al. 0 < v x"
  shows "\<not> (\<forall>x\<in>set al. mat_vec al (path_matrix al g) v x = v x)"
proof -
  have edges: "\<forall>e\<in>set g. proper_edge (set al) e"
    using rauzy_path_edge_letters[OF path, of "set al"] letters by simp
  from absorbs rauzy_path_kinds[OF path] have "RauzyMove wn sd \<in> snd ` set g"
    by (metis set_map)
  then obtain p where "(p, RauzyMove wn sd) \<in> set g" by force
  then obtain g1 g2 where g: "g = g1 @ (p, RauzyMove wn sd) # g2"
    by (meson split_list)
  let ?w = "winner_letter wn sd p" and ?l = "loser_letter wn sd p"
  have w: "?w \<in> set al" and l: "?l \<in> set al" and ne: "?w \<noteq> ?l"
    using edges g by auto
  have e1: "\<forall>e\<in>set g1. proper_edge (set al) e" and e2: "\<forall>e\<in>set g2. proper_edge (set al) e"
    using edges g by auto
  let ?B = "matrix_from al identity_matrix g1"
  let ?M1 = "mat_mul al ?B (elementary_matrix ?w ?l)"
  let ?M = "path_matrix al g"
  have nnI: "\<forall>x. \<forall>y\<in>set al. 0 \<le> (identity_matrix :: 'a matrix) x y"
    by (simp add: identity_matrix_def)
  have grow0: "\<forall>x. \<forall>y\<in>set al. identity_matrix x y \<le> ?B x y"
    by (rule matrix_from_grows[OF d e1 nnI])
  have nn0: "\<forall>x. \<forall>y\<in>set al. 0 \<le> ?B x y"
  proof (intro allI ballI)
    fix x y assume y: "y \<in> set al"
    have "0 \<le> (identity_matrix :: 'a matrix) x y" by (simp add: identity_matrix_def)
    also have "\<dots> \<le> ?B x y" using grow0 y by simp
    finally show "0 \<le> ?B x y" .
  qed
  have M1: "?M1 x y = (if y = ?l then ?B x ?w + ?B x ?l else ?B x y)" if "y \<in> set al" for x y
    by (rule mat_mul_elementary[OF d w l ne that])
  have nn1: "\<forall>x. \<forall>y\<in>set al. 0 \<le> ?M1 x y"
    using M1 nn0 w l by auto
  have Mg: "?M = matrix_from al ?M1 g2"
    by (simp add: path_matrix_def g matrix_from_append)
  have grow: "\<forall>x. \<forall>y\<in>set al. ?M1 x y \<le> ?M x y"
    unfolding Mg by (rule matrix_from_grows[OF d e2 nn1])
  have one: "1 \<le> ?B ?w ?w"
  proof -
    have "identity_matrix ?w ?w \<le> ?B ?w ?w" using grow0 w by blast
    thus ?thesis by (simp add: identity_matrix_def)
  qed
  have ww: "1 \<le> ?M ?w ?w"
  proof -
    have "1 \<le> ?M1 ?w ?w" using M1[OF w, of ?w] ne one by simp
    also have "\<dots> \<le> ?M ?w ?w" using grow w by blast
    finally show ?thesis .
  qed
  have wl: "1 \<le> ?M ?w ?l"
  proof -
    have "0 \<le> ?B ?w ?l" using nn0 l by simp
    hence "1 \<le> ?M1 ?w ?l" using M1[OF l, of ?w] one by simp
    also have "\<dots> \<le> ?M ?w ?l" using grow l by blast
    finally show ?thesis .
  qed
  have nn: "\<forall>k\<in>set al. 0 \<le> ?M ?w k"
  proof
    fix k assume k: "k \<in> set al"
    have "0 \<le> ?M1 ?w k" using nn1 k by simp
    also have "\<dots> \<le> ?M ?w k" using grow k by simp
    finally show "0 \<le> ?M ?w k" .
  qed
  let ?f = "\<lambda>k. of_int (?M ?w k) * v k"
  have fnn: "\<forall>k\<in>set al. 0 \<le> ?f k"
    using nn pos by (auto intro!: mult_nonneg_nonneg simp: less_imp_le)
  have "v ?w + v ?l \<le> ?f ?w + ?f ?l"
  proof -
    have "1 * v ?w \<le> of_int (?M ?w ?w) * v ?w"
      using ww pos w by (intro mult_right_mono) (auto simp: less_imp_le)
    moreover have "1 * v ?l \<le> of_int (?M ?w ?l) * v ?l"
      using wl pos l by (intro mult_right_mono) (auto simp: less_imp_le)
    ultimately show ?thesis by simp
  qed
  also have "\<dots> \<le> mat_vec al ?M v ?w"
    unfolding mat_vec_def by (rule sum_list_two_members[OF d w l ne fnn])
  finally have le: "v ?w + v ?l \<le> mat_vec al ?M v ?w" .
  have "0 < v ?l" using pos l by simp
  hence "v ?w < v ?w + v ?l" by simp
  hence "v ?w < mat_vec al ?M v ?w" using le by (rule less_le_trans)
  hence "mat_vec al ?M v ?w \<noteq> v ?w" by simp
  thus ?thesis using w by blast
qed

subsection \<open>Self-similar interval exchanges\<close>

text \<open>
  The law behind the self-similar example of the docstrings. Along a path of right induction
  moves the numeric moves undo the matrix: if the lengths are the image of a positive vector \<open>u\<close> under the matrix
  of the path, then the numeric Rauzy moves choose the winners of the path, one edge after
  the other, and end with the lengths \<open>u\<close> on the end vertex of the path. For a loop and a
  positive eigenvector \<open>v\<close>, of eigenvalue \<open>lam\<close>, the moves therefore give back the rows
  with the lengths \<open>v / lam\<close>, and both interval exchanges have the same normalization.
\<close>

lemma iet_rauzy_moves_Suc:
  "iet_rauzy_moves (Suc n) T =
     (case iet_rauzy_moves n T of Inl e \<Rightarrow> Inl e | Inr U \<Rightarrow> iet_rauzy_move U)"
proof (induction n arbitrary: T)
  case 0
  show ?case by (simp split: sum.splits)
next
  case (Suc n)
  show ?case
  proof (cases "iet_rauzy_move T")
    case (Inl e)
    then show ?thesis by simp
  next
    case (Inr U)
    have "iet_rauzy_moves (Suc (Suc n)) T = iet_rauzy_moves (Suc n) U"
      using Inr by simp
    also have "\<dots> = (case iet_rauzy_moves n U of Inl e \<Rightarrow> Inl e | Inr V \<Rightarrow> iet_rauzy_move V)"
      by (rule Suc.IH)
    also have "\<dots> = (case iet_rauzy_moves (Suc n) T of Inl e \<Rightarrow> Inl e | Inr V \<Rightarrow> iet_rauzy_move V)"
      using Inr by simp
    finally show ?thesis .
  qed
qed

lemma rauzy_path_snoc:
  assumes "rauzy_path p (ms @ [m]) = Inr g"
  shows "\<exists>g' q. rauzy_path p ms = Inr g' \<and> path_end p ms = Inr q
           \<and> (\<exists>r. induction_move m q = Inr r \<and> path_end p (ms @ [m]) = Inr r)
           \<and> g = g' @ [(q, m)]"
  using assms
proof (induction ms arbitrary: p g)
  case Nil
  then show ?case by (auto split: sum.splits)
next
  case (Cons k ms)
  from Cons.prems obtain p' es where p': "induction_move k p = Inr p'"
    and es: "rauzy_path p' (ms @ [m]) = Inr es" and g: "g = (p, k) # es"
    by (auto split: sum.splits)
  from Cons.IH[OF es] obtain g' q r where
    "rauzy_path p' ms = Inr g'" "path_end p' ms = Inr q" "induction_move m q = Inr r"
    "path_end p' (ms @ [m]) = Inr r" "es = g' @ [(q, m)]"
    by blast
  thus ?case using p' g by auto
qed

lemma path_matrix_snoc:
  "path_matrix al (g @ [e]) = mat_mul al (path_matrix al g) (edge_matrix e)"
  by (simp add: path_matrix_def matrix_from_append)

lemma sum_list_delta_field:
  fixes c :: "'n::linordered_field"
  assumes "distinct al" "a \<in> set al"
  shows "(\<Sum>k\<leftarrow>al. if k = a then c else 0) = c"
proof -
  have "(\<Sum>k\<leftarrow>al. if k = a then c else 0) = (\<Sum>k\<in>set al. if k = a then c else 0)"
    using assms(1) by (simp add: sum_list_distinct_conv_sum_set)
  also have "\<dots> = c" using assms(2) by simp
  finally show ?thesis .
qed

lemma mat_vec_elementary:
  fixes u :: "'a \<Rightarrow> 'n::linordered_field"
  assumes d: "distinct al" and w: "w \<in> set al" and l: "l \<in> set al" and ne: "w \<noteq> l"
  shows "mat_vec al (mat_mul al M (elementary_matrix w l)) u x
       = mat_vec al M (u(w := u w + u l)) x"
proof -
  let ?c = "of_int (M x w) * u l"
  have "mat_vec al (mat_mul al M (elementary_matrix w l)) u x
      = (\<Sum>k\<leftarrow>al. of_int (M x k) * u k + (if k = l then ?c else 0))"
    unfolding mat_vec_def
  proof (rule arg_cong[where f = sum_list], rule map_cong[OF refl])
    fix k assume k: "k \<in> set al"
    show "of_int (mat_mul al M (elementary_matrix w l) x k) * u k
        = of_int (M x k) * u k + (if k = l then ?c else 0)"
      using mat_mul_elementary[OF d w l ne k, of M x] by (simp add: algebra_simps)
  qed
  also have "\<dots> = (\<Sum>k\<leftarrow>al. of_int (M x k) * u k) + (\<Sum>k\<leftarrow>al. if k = l then ?c else 0)"
    by (simp add: sum_list_addf)
  also have "\<dots> = (\<Sum>k\<leftarrow>al. of_int (M x k) * u k) + ?c"
    using sum_list_delta_field[OF d l] by simp
  finally have lhs: "mat_vec al (mat_mul al M (elementary_matrix w l)) u x
      = (\<Sum>k\<leftarrow>al. of_int (M x k) * u k) + ?c" .
  have "mat_vec al M (u(w := u w + u l)) x
      = (\<Sum>k\<leftarrow>al. of_int (M x k) * u k + (if k = w then ?c else 0))"
    unfolding mat_vec_def
    by (rule arg_cong[where f = sum_list], rule map_cong[OF refl]) (simp add: algebra_simps)
  also have "\<dots> = (\<Sum>k\<leftarrow>al. of_int (M x k) * u k) + (\<Sum>k\<leftarrow>al. if k = w then ?c else 0)"
    by (simp add: sum_list_addf)
  also have "\<dots> = (\<Sum>k\<leftarrow>al. of_int (M x k) * u k) + ?c"
    using sum_list_delta_field[OF d w] by simp
  finally show ?thesis using lhs by simp
qed

lemma mat_vec_cong:
  "(\<And>k. k \<in> set al \<Longrightarrow> u k = u' k) \<Longrightarrow> mat_vec al M u x = mat_vec al M u' x"
  unfolding mat_vec_def by (rule arg_cong[where f = sum_list], rule map_cong[OF refl]) simp

lemma iet_rauzy_move_follows_edge:
  fixes T :: "('a, 'n::linordered_field) iet"
  assumes mv: "rauzy_move m (rows_of T) = Inr r"
    and gt: "iet_length T (loser_letter m RightSide (rows_of T))
               < iet_length T (winner_letter m RightSide (rows_of T))"
  shows "iet_rauzy_move T =
           Inr \<lparr>iet_top = fst r, iet_bottom = snd r,
                iet_length = (iet_length T)(winner_letter m RightSide (rows_of T) :=
                   iet_length T (winner_letter m RightSide (rows_of T))
                   - iet_length T (loser_letter m RightSide (rows_of T)))\<rparr>"
proof -
  from rauzy_move_ends[OF mv] have ne: "iet_top T \<noteq> []" "iet_bottom T \<noteq> []"
    by (simp_all add: rows_of_def)
  show ?thesis
  proof (cases m)
    case Top
    with gt have "iet_length T (last (iet_bottom T)) < iet_length T (last (iet_top T))"
      by (simp add: top_letter_def bottom_letter_def rows_of_def)
    thus ?thesis using ne mv Top
      by (simp add: iet_rauzy_move_def Let_def top_letter_def bottom_letter_def rows_of_def)
  next
    case Bottom
    with gt have lt: "iet_length T (last (iet_top T)) < iet_length T (last (iet_bottom T))"
      by (simp add: top_letter_def bottom_letter_def rows_of_def)
    hence "\<not> iet_length T (last (iet_bottom T)) < iet_length T (last (iet_top T))" by simp
    thus ?thesis using ne mv Bottom lt
      by (simp add: iet_rauzy_move_def Let_def top_letter_def bottom_letter_def rows_of_def)
  qed
qed

lemma numeric_moves_follow_path:
  fixes u :: "'a \<Rightarrow> 'n::linordered_field"
  assumes d: "distinct al"
  shows "set (fst p) \<union> set (snd p) \<subseteq> set al
     \<Longrightarrow> rauzy_path p (map (\<lambda>w. RauzyMove w RightSide) ws) = Inr g
     \<Longrightarrow> path_end p (map (\<lambda>w. RauzyMove w RightSide) ws) = Inr q \<Longrightarrow> (\<forall>x\<in>set al. 0 < u x)
     \<Longrightarrow> (\<forall>x\<in>set al. f x = mat_vec al (path_matrix al g) u x)
     \<Longrightarrow> \<exists>T. iet_rauzy_moves (length ws) \<lparr>iet_top = fst p, iet_bottom = snd p, iet_length = f\<rparr> = Inr T
            \<and> rows_of T = q \<and> (\<forall>x\<in>set al. iet_length T x = u x)"
proof (induction ws arbitrary: g q u rule: rev_induct)
  case Nil
  hence "g = []" "q = p" by auto
  moreover have "mat_vec al identity_matrix u x = u x" if "x \<in> set al" for x
  proof -
    have "mat_vec al identity_matrix u x = (\<Sum>k\<leftarrow>al. if k = x then u x else 0)"
      unfolding mat_vec_def identity_matrix_def
      by (rule arg_cong[where f = sum_list], rule map_cong[OF refl]) auto
    thus ?thesis using sum_list_delta_field[OF d that] by simp
  qed
  ultimately show ?case using Nil.prems(5)
    by (simp add: rows_of_def path_matrix_def)
next
  case (snoc m ms)
  let ?ms = "map (\<lambda>w. RauzyMove w RightSide) ms"
  have path: "rauzy_path p (?ms @ [RauzyMove m RightSide]) = Inr g"
    and pend: "path_end p (?ms @ [RauzyMove m RightSide]) = Inr q"
    using snoc.prems(2,3) by simp_all
  from rauzy_path_snoc[OF path] obtain g' q' r where
    g': "rauzy_path p ?ms = Inr g'" and q': "path_end p ?ms = Inr q'"
    and r: "rauzy_move m q' = Inr r" and e: "path_end p (?ms @ [RauzyMove m RightSide]) = Inr r"
    and g: "g = g' @ [(q', RauzyMove m RightSide)]"
    by auto
  from e pend have rq: "r = q" by simp
  let ?w = "winner_letter m RightSide q'" and ?l = "loser_letter m RightSide q'"
  have edges: "\<forall>e\<in>set g. proper_edge (set al) e"
    using rauzy_path_edge_letters[OF snoc.prems(2) snoc.prems(1)] .
  hence w: "?w \<in> set al" and l: "?l \<in> set al" and ne: "?w \<noteq> ?l"
    using g by auto
  let ?u1 = "u(?w := u ?w + u ?l)"
  have pos1: "\<forall>x\<in>set al. 0 < ?u1 x"
    using snoc.prems(4) w l by (auto intro: add_pos_pos)
  have f1: "\<forall>x\<in>set al. f x = mat_vec al (path_matrix al g') ?u1 x"
    using snoc.prems(5) by (simp add: g path_matrix_snoc mat_vec_elementary[OF d w l ne])
  from snoc.IH[OF snoc.prems(1) g' q' pos1 f1] obtain T1 where
    T1: "iet_rauzy_moves (length ms) \<lparr>iet_top = fst p, iet_bottom = snd p, iet_length = f\<rparr> = Inr T1"
    and rows1: "rows_of T1 = q'" and len1: "\<forall>x\<in>set al. iet_length T1 x = ?u1 x"
    by blast
  have lw: "iet_length T1 ?w = u ?w + u ?l" using len1 w by simp
  have ll: "iet_length T1 ?l = u ?l" using len1 l ne by simp
  have "0 < u ?w" using snoc.prems(4) w by simp
  hence gt: "iet_length T1 (loser_letter m RightSide (rows_of T1))
               < iet_length T1 (winner_letter m RightSide (rows_of T1))"
    using lw ll rows1 by simp
  have mv: "rauzy_move m (rows_of T1) = Inr r" using r rows1 by simp
  let ?T = "\<lparr>iet_top = fst r, iet_bottom = snd r,
              iet_length = (iet_length T1)(?w := iet_length T1 ?w - iet_length T1 ?l)\<rparr>"
  have step: "iet_rauzy_move T1 = Inr ?T"
    using iet_rauzy_move_follows_edge[OF mv gt] rows1 by simp
  have "iet_rauzy_moves (length (ms @ [m])) \<lparr>iet_top = fst p, iet_bottom = snd p, iet_length = f\<rparr>
      = Inr ?T"
    using T1 step by (simp add: iet_rauzy_moves_Suc del: iet_rauzy_moves.simps)
  moreover have "rows_of ?T = q" using rq by (simp add: rows_of_def)
  moreover have "\<forall>x\<in>set al. iet_length ?T x = u x"
    using len1 lw ll by auto
  ultimately show ?case by blast
qed

lemma mat_vec_divide:
  fixes v :: "'a \<Rightarrow> 'n::linordered_field"
  shows "mat_vec al M (\<lambda>k. v k / c) x = mat_vec al M v x / c"
proof -
  have "mat_vec al M (\<lambda>k. v k / c) x = (\<Sum>k\<leftarrow>al. (of_int (M x k) * v k) * (1 / c))"
    unfolding mat_vec_def by (rule arg_cong[where f = sum_list]) simp
  also have "\<dots> = (\<Sum>k\<leftarrow>al. of_int (M x k) * v k) * (1 / c)"
    by (rule sum_list_mult_const)
  finally show ?thesis by (simp add: mat_vec_def)
qed

lemma sum_list_pos_members:
  fixes f :: "'a \<Rightarrow> 'n::linordered_field"
  shows "xs \<noteq> [] \<Longrightarrow> (\<forall>x\<in>set xs. 0 < f x) \<Longrightarrow> 0 < sum_list (map f xs)"
proof (induction xs)
  case Nil
  then show ?case by simp
next
  case (Cons a xs)
  show ?case
  proof (cases "xs = []")
    case True
    with Cons.prems show ?thesis by simp
  next
    case False
    with Cons have "0 < sum_list (map f xs)" by simp
    moreover have "0 < f a" using Cons.prems by simp
    ultimately show ?thesis by (simp add: add_pos_pos)
  qed
qed

lemma self_similarity:
  fixes v :: "'a \<Rightarrow> 'n::linordered_field"
  assumes d: "distinct al" and letters: "set a0 \<union> set a1 \<subseteq> set al" and ne: "a0 \<noteq> []"
    and path: "rauzy_path (a0, a1) (map (\<lambda>w. RauzyMove w RightSide) ws) = Inr g"
    and loop: "path_end (a0, a1) (map (\<lambda>w. RauzyMove w RightSide) ws) = Inr (a0, a1)"
    and pos: "\<forall>x\<in>set al. 0 < v x" and lam: "0 < lam"
    and eig: "\<forall>x\<in>set al. mat_vec al (path_matrix al g) v x = lam * v x"
  shows "\<exists>T N1 N2.
           iet_rauzy_moves (length ws) \<lparr>iet_top = a0, iet_bottom = a1, iet_length = v\<rparr> = Inr T
         \<and> normalize T 1 = Inr N1
         \<and> normalize \<lparr>iet_top = a0, iet_bottom = a1, iet_length = v\<rparr> 1 = Inr N2
         \<and> iet_equal N1 N2"
proof -
  let ?u = "\<lambda>k. v k / lam"
  let ?T0 = "\<lparr>iet_top = a0, iet_bottom = a1, iet_length = v\<rparr>"
  have posu: "\<forall>x\<in>set al. 0 < ?u x" using pos lam by simp
  have f: "\<forall>x\<in>set al. v x = mat_vec al (path_matrix al g) ?u x"
    using eig lam by (simp add: mat_vec_divide)
  have l': "set (fst (a0, a1)) \<union> set (snd (a0, a1)) \<subseteq> set al" using letters by simp
  from numeric_moves_follow_path[OF d l' path loop posu f] obtain T where
    T: "iet_rauzy_moves (length ws) ?T0 = Inr T" and rows: "rows_of T = (a0, a1)"
    and len: "\<forall>x\<in>set al. iet_length T x = v x / lam"
    by auto
  have top: "iet_top T = a0" and bot: "iet_bottom T = a1" using rows by (simp_all add: rows_of_def)
  have tot0: "0 < total_length ?T0"
    unfolding total_length_def using ne pos letters by (intro sum_list_pos_members) auto
  have m: "map (iet_length T) a0 = map (\<lambda>x. v x * (1 / lam)) a0"
    using len letters by auto
  have "total_length T = sum_list (map (iet_length T) a0)"
    by (simp add: total_length_def top)
  also have "\<dots> = sum_list (map (\<lambda>x. v x * (1 / lam)) a0)"
    by (simp only: m)
  also have "\<dots> = sum_list (map v a0) * (1 / lam)" by (rule sum_list_mult_const)
  finally have tot: "total_length T = total_length ?T0 / lam"
    by (simp add: total_length_def)
  hence totpos: "0 < total_length T" using tot0 lam by simp
  let ?N1 = "\<lparr>iet_top = iet_top T, iet_bottom = iet_bottom T,
               iet_length = (\<lambda>x. iet_length T x * 1 / total_length T)\<rparr>"
  let ?N2 = "\<lparr>iet_top = a0, iet_bottom = a1,
               iet_length = (\<lambda>x. v x * 1 / total_length ?T0)\<rparr>"
  have n1: "normalize T 1 = Inr ?N1" using totpos by (simp add: normalize_def)
  have n2: "normalize ?T0 1 = Inr ?N2" using tot0 by (simp add: normalize_def)
  have "iet_length T x * 1 / total_length T = v x * 1 / total_length ?T0"
    if "x \<in> set (a0 @ a1)" for x
  proof -
    from that letters have "x \<in> set al" by auto
    hence a: "iet_length T x = v x / lam" using len by simp
    have "iet_length T x * 1 / total_length T = (v x / lam) / (total_length ?T0 / lam)"
      by (simp only: a tot mult_1_right)
    also have "\<dots> = v x / total_length ?T0" using lam by simp
    finally show ?thesis by simp
  qed
  hence "iet_equal ?N1 ?N2" by (simp add: iet_equal_def top bot)
  with T n1 n2 show ?thesis by blast
qed

lemma golden_path:
  "rauzy_path ([''a'', ''b''], [''b'', ''a'']) (map (\<lambda>w. RauzyMove w RightSide) [Top, Bottom])
     = Inr [(([''a'', ''b''], [''b'', ''a'']), RauzyMove Top RightSide),
            (([''a'', ''b''], [''b'', ''a'']), RauzyMove Bottom RightSide)]
   \<and> path_end ([''a'', ''b''], [''b'', ''a'']) (map (\<lambda>w. RauzyMove w RightSide) [Top, Bottom])
     = Inr ([''a'', ''b''], [''b'', ''a''])"
  by code_simp

lemma golden_matrix:
  "matrix_rows [''a'', ''b'']
     (path_matrix [''a'', ''b'']
        [(([''a'', ''b''], [''b'', ''a'']), RauzyMove Top RightSide),
         (([''a'', ''b''], [''b'', ''a'']), RauzyMove Bottom RightSide)])
   = [[1, 1], [1, 2]]"
  by code_simp

lemma golden_eigenvector:
  "\<forall>x\<in>set [''a'', ''b''].
     mat_vec [''a'', ''b'']
       (path_matrix [''a'', ''b'']
          [(([''a'', ''b''], [''b'', ''a'']), RauzyMove Top RightSide),
           (([''a'', ''b''], [''b'', ''a'']), RauzyMove Bottom RightSide)])
       golden_lengths x = (3 + sqrt 5) / 2 * golden_lengths x"
proof -
  have m: "path_matrix [''a'', ''b'']
          [(([''a'', ''b''], [''b'', ''a'']), RauzyMove Top RightSide),
           (([''a'', ''b''], [''b'', ''a'']), RauzyMove Bottom RightSide)] i j
        = (if i = ''a'' then 1 else if j = ''a'' then 1 else 2)"
    if "i \<in> set [''a'', ''b'']" "j \<in> set [''a'', ''b'']" for i j
    using golden_matrix that by (auto simp: matrix_rows_def)
  have s: "sqrt 5 * sqrt 5 = 5" by simp
  show ?thesis
    using s by (simp add: mat_vec_def m golden_lengths_def field_simps)
qed

lemma golden_self_similar:
  "\<exists>T N1 N2.
     iet_rauzy_moves 2 \<lparr>iet_top = [''a'', ''b''], iet_bottom = [''b'', ''a''],
                        iet_length = golden_lengths\<rparr> = Inr T
   \<and> normalize T 1 = Inr N1
   \<and> normalize \<lparr>iet_top = [''a'', ''b''], iet_bottom = [''b'', ''a''],
                 iet_length = golden_lengths\<rparr> 1 = Inr N2
   \<and> iet_equal N1 N2"
proof -
  have d: "distinct [''a'', ''b'']" by simp
  have l: "set [''a'', ''b''] \<union> set [''b'', ''a''] \<subseteq> set [''a'', ''b'']" by auto
  have ne: "[''a'', ''b''] \<noteq> []" by simp
  have pos: "\<forall>x\<in>set [''a'', ''b'']. 0 < golden_lengths x"
    by (auto simp: golden_lengths_def intro: add_pos_nonneg)
  have lam: "0 < (3 + sqrt 5) / 2" by (auto intro: add_pos_nonneg)
  have k: "length [Top, Bottom] = 2" by simp
  show ?thesis
    using self_similarity[OF d l ne conjunct1[OF golden_path] conjunct2[OF golden_path] pos lam
      golden_eigenvector]
    unfolding k .
qed

section \<open>The claims\<close>

subsection \<open>Substitution and matrix of a path (C1)\<close>



subsection \<open>Composition and inversion (C4)\<close>

text \<open>
  Claim C4: for every numeric interval exchange \<open>T\<close> (each label once in each row), both
  \<open>compose (inverse_iet T) T\<close> and \<open>compose T (inverse_iet T)\<close> are defined and pass the
  identity test.
\<close>

theorem compose_inverse_is_identity:
  fixes T :: "('a, 'n::linordered_field) iet"
  assumes "once_in_each_interval (iet_top T) (iet_bottom T)"
  shows "(\<exists>U. compose (inverse_iet T) T = Inr U \<and> is_identity U)
       \<and> (\<exists>V. compose T (inverse_iet T) = Inr V \<and> is_identity V)"
  using compose_inverse_left[OF assms] compose_inverse_right[OF assms]
  by (auto simp: is_identity_def)

theorem compose_inverse_is_identity_witness:
  "once_in_each_interval (iet_top docstring_iet) (iet_bottom docstring_iet)
   \<and> map_sum id rows_of (compose (inverse_iet docstring_iet) docstring_iet)
       = Inr ([(''a'', ''a''), (''b'', ''b'')], [(''a'', ''a''), (''b'', ''b'')])
   \<and> map_sum id rows_of (compose docstring_iet (inverse_iet docstring_iet))
       = Inr ([(''b'', ''b''), (''a'', ''a'')], [(''b'', ''b''), (''a'', ''a'')])
   \<and> map_sum id is_identity (compose (inverse_iet docstring_iet) docstring_iet) = Inr True
   \<and> map_sum id is_identity (compose docstring_iet (inverse_iet docstring_iet)) = Inr True"
proof -
  have h: "once_in_each_interval (iet_top docstring_iet) (iet_bottom docstring_iet)"
    by (simp add: docstring_iet_eq once_in_each_interval_def)
  have l: "map_sum id rows_of (compose (inverse_iet docstring_iet) docstring_iet)
       = Inr ([(''a'', ''a''), (''b'', ''b'')], [(''a'', ''a''), (''b'', ''b'')])"
    by (simp add: compose_def rows_of_def total_length_def range_partition_def
        domain_partition_def pieces_from_def pieces_into_def inverse_iet_def docstring_iet_eq)
  have r: "map_sum id rows_of (compose docstring_iet (inverse_iet docstring_iet))
       = Inr ([(''b'', ''b''), (''a'', ''a'')], [(''b'', ''b''), (''a'', ''a'')])"
    by (simp add: compose_def rows_of_def total_length_def range_partition_def
        domain_partition_def pieces_from_def pieces_into_def inverse_iet_def docstring_iet_eq)
  from compose_inverse_is_identity[OF h] obtain U V
    where U: "compose (inverse_iet docstring_iet) docstring_iet = Inr U" "is_identity U"
      and V: "compose docstring_iet (inverse_iet docstring_iet) = Inr V" "is_identity V"
    by blast
  show ?thesis using h l r U V by simp
qed

subsection \<open>Numeric interval exchanges (C5)\<close>




subsection \<open>Letter multiplicities (C6)\<close>

text \<open>
  Claim C6: constructing an IET permutation from two label rows raises the letter
  multiplicity error if and only if some letter of the rows does not occur exactly once in
  the top row or not exactly once in the bottom row. The call is \<^verbatim>\<open>Permutation\<close> on the two
  rows, with no flips. When flips are given as well, the error is still raised only for such
  rows.
\<close>

theorem Permutation_multiplicity_iff:
  "((\<exists>rule. Permutation a0 a1 reduced None alphabet = Inl (LetterMultiplicityError rule)) \<longleftrightarrow>
      (\<exists>letter\<in>set (a0 @ a1). count_list a0 letter \<noteq> 1 \<or> count_list a1 letter \<noteq> 1))
   \<and> ((\<exists>rule. Permutation a0 a1 reduced flips alphabet = Inl (LetterMultiplicityError rule)) \<longrightarrow>
      (\<exists>letter\<in>set (a0 @ a1). count_list a0 letter \<noteq> 1 \<or> count_list a1 letter \<noteq> 1))"
  by (auto simp: Permutation_cases once_in_each_interval_def list_all_iff flips_accepted_def
      split: if_splits)

theorem Permutation_multiplicity_iff_witness:
  "Permutation [''a'', ''b'', ''b''] [''b'', ''a''] None None None
     = Inl (LetterMultiplicityError OnceInEachInterval)
   \<and> ''b'' \<in> set ([''a'', ''b'', ''b''] @ [''b'', ''a''])
   \<and> count_list [''a'', ''b'', ''b''] ''b'' \<noteq> 1
   \<and> (\<forall>rule. Permutation [''a'', ''b''] [''b'', ''a''] None None None
          \<noteq> Inl (LetterMultiplicityError rule))"
proof -
  have a: "Permutation [''a'', ''b'', ''b''] [''b'', ''a''] None None None
     = Inl (LetterMultiplicityError OnceInEachInterval)"
    by (simp add: constructor_defs)
  have b: "\<not> (\<exists>letter\<in>set ([''a'', ''b''] @ [''b'', ''a'']).
            count_list [''a'', ''b''] letter \<noteq> 1 \<or> count_list [''b'', ''a''] letter \<noteq> 1)"
    by simp
  have c: "\<forall>rule. Permutation [''a'', ''b''] [''b'', ''a''] None None None
          \<noteq> Inl (LetterMultiplicityError rule)"
    using b Permutation_multiplicity_iff[of "[''a'', ''b'']" "[''b'', ''a'']" None None None]
    by blast
  have d: "\<exists>letter\<in>set ([''a'', ''b'', ''b''] @ [''b'', ''a'']).
            count_list [''a'', ''b'', ''b''] letter \<noteq> 1 \<or> count_list [''b'', ''a''] letter \<noteq> 1"
    using a Permutation_multiplicity_iff[of "[''a'', ''b'', ''b'']" "[''b'', ''a'']" None None None]
    by blast
  show ?thesis using a c by simp
qed

subsection \<open>Round trip through the rows (C7)\<close>



subsection \<open>Equality of reduced permutations (C8)\<close>

text \<open>
  Claim C8: equality of reduced permutations does not depend on the alphabet. Two reduced
  permutations (whose flipped letters are letters of their rows) are equal if and only if a
  label-consistent renaming carries the rows of one onto the rows of the other. In
  particular two reduced permutations built from the same rows with different alphabets are
  equal, while two labelled permutations built from the same rows with differently ordered
  alphabets are not.
\<close>

theorem reduced_equality_is_renaming:
  fixes p :: "'a permutation" and q :: "'b permutation" and r1 r2 l1 l2 :: "'c permutation"
  shows "(set (flips_of p) \<subseteq> set (perm_top p @ perm_bottom p)
          \<and> set (flips_of q) \<subseteq> set (perm_top q @ perm_bottom q)
          \<longrightarrow> (reduced_equal p q \<longleftrightarrow> (\<exists>f. renaming f p q)))
       \<and> (Permutation a0 a1 (Some True) fl al1 = Inr r1
          \<and> Permutation a0 a1 (Some True) fl al2 = Inr r2 \<longrightarrow> permutation_equal r1 r2)
       \<and> (Permutation a0 a1 (Some False) fl (Some bl1) = Inr l1
          \<and> Permutation a0 a1 (Some False) fl (Some bl2) = Inr l2 \<and> bl1 \<noteq> bl2
          \<longrightarrow> \<not> permutation_equal l1 l2)"
proof (intro conjI impI)
  assume "set (flips_of p) \<subseteq> set (perm_top p @ perm_bottom p)
          \<and> set (flips_of q) \<subseteq> set (perm_top q @ perm_bottom q)"
  thus "reduced_equal p q \<longleftrightarrow> (\<exists>f. renaming f p q)"
    using canonical_form_iff_renaming[of p q] by blast
next
  assume "Permutation a0 a1 (Some True) fl al1 = Inr r1
          \<and> Permutation a0 a1 (Some True) fl al2 = Inr r2"
  thus "permutation_equal r1 r2"
    by (auto simp: Permutation_cases permutation_equal_def reduced_equal_def canonical_form_def
        flips_of_def split: if_splits)
next
  assume "Permutation a0 a1 (Some False) fl (Some bl1) = Inr l1
          \<and> Permutation a0 a1 (Some False) fl (Some bl2) = Inr l2 \<and> bl1 \<noteq> bl2"
  thus "\<not> permutation_equal l1 l2"
    by (auto simp: Permutation_cases permutation_equal_def labelled_equal_def alphabet_of_def
        split: if_splits)
qed

theorem reduced_equality_is_renaming_witness:
  "reduced_equal
     \<lparr>perm_cls = ReducedPermutationIET, perm_top = [''a'', ''b'', ''c''],
       perm_bottom = [''c'', ''b'', ''a''], perm_alphabet = None, perm_reduced = True,
       perm_flips = None\<rparr>
     \<lparr>perm_cls = ReducedPermutationIET, perm_top = [0::nat, 1, 2], perm_bottom = [2, 1, 0],
       perm_alphabet = None, perm_reduced = True, perm_flips = None\<rparr>
   \<and> (\<exists>f. renaming f
     \<lparr>perm_cls = ReducedPermutationIET, perm_top = [''a'', ''b'', ''c''],
       perm_bottom = [''c'', ''b'', ''a''], perm_alphabet = None, perm_reduced = True,
       perm_flips = None\<rparr>
     \<lparr>perm_cls = ReducedPermutationIET, perm_top = [0::nat, 1, 2], perm_bottom = [2, 1, 0],
       perm_alphabet = None, perm_reduced = True, perm_flips = None\<rparr>)
   \<and> permutation_equal
     \<lparr>perm_cls = ReducedPermutationIET, perm_top = [''a'', ''b''], perm_bottom = [''b'', ''a''],
       perm_alphabet = Some [''a'', ''b''], perm_reduced = True, perm_flips = None\<rparr>
     \<lparr>perm_cls = ReducedPermutationIET, perm_top = [''a'', ''b''], perm_bottom = [''b'', ''a''],
       perm_alphabet = Some [''b'', ''a''], perm_reduced = True, perm_flips = None\<rparr>
   \<and> \<not> permutation_equal
     \<lparr>perm_cls = LabelledPermutationIET, perm_top = [''a'', ''b''], perm_bottom = [''b'', ''a''],
       perm_alphabet = Some [''a'', ''b''], perm_reduced = False, perm_flips = None\<rparr>
     \<lparr>perm_cls = LabelledPermutationIET, perm_top = [''a'', ''b''], perm_bottom = [''b'', ''a''],
       perm_alphabet = Some [''b'', ''a''], perm_reduced = False, perm_flips = None\<rparr>"
proof -
  let ?p = "\<lparr>perm_cls = ReducedPermutationIET, perm_top = [''a'', ''b'', ''c''],
       perm_bottom = [''c'', ''b'', ''a''], perm_alphabet = None, perm_reduced = True,
       perm_flips = None\<rparr>"
  let ?q = "\<lparr>perm_cls = ReducedPermutationIET, perm_top = [0::nat, 1, 2], perm_bottom = [2, 1, 0],
       perm_alphabet = None, perm_reduced = True, perm_flips = None\<rparr>"
  have e: "reduced_equal ?p ?q"
    by (simp add: equality_defs flips_of_def)
  have fp: "set (flips_of ?p) \<subseteq> set (perm_top ?p @ perm_bottom ?p)"
    and fq: "set (flips_of ?q) \<subseteq> set (perm_top ?q @ perm_bottom ?q)"
    by (simp_all add: flips_of_def)
  have r1: "Permutation [''a'', ''b''] [''b'', ''a''] (Some True) None (Some [''a'', ''b''])
     = Inr \<lparr>perm_cls = ReducedPermutationIET, perm_top = [''a'', ''b''], perm_bottom = [''b'', ''a''],
       perm_alphabet = Some [''a'', ''b''], perm_reduced = True, perm_flips = None\<rparr>"
    and r2: "Permutation [''a'', ''b''] [''b'', ''a''] (Some True) None (Some [''b'', ''a''])
     = Inr \<lparr>perm_cls = ReducedPermutationIET, perm_top = [''a'', ''b''], perm_bottom = [''b'', ''a''],
       perm_alphabet = Some [''b'', ''a''], perm_reduced = True, perm_flips = None\<rparr>"
    and l1: "Permutation [''a'', ''b''] [''b'', ''a''] (Some False) None (Some [''a'', ''b''])
     = Inr \<lparr>perm_cls = LabelledPermutationIET, perm_top = [''a'', ''b''], perm_bottom = [''b'', ''a''],
       perm_alphabet = Some [''a'', ''b''], perm_reduced = False, perm_flips = None\<rparr>"
    and l2: "Permutation [''a'', ''b''] [''b'', ''a''] (Some False) None (Some [''b'', ''a''])
     = Inr \<lparr>perm_cls = LabelledPermutationIET, perm_top = [''a'', ''b''], perm_bottom = [''b'', ''a''],
       perm_alphabet = Some [''b'', ''a''], perm_reduced = False, perm_flips = None\<rparr>"
    by (simp_all add: constructor_defs)
  have ne: "[''a'', ''b''] \<noteq> [''b'', ''a'']" by simp
  note t = reduced_equality_is_renaming[of ?p ?q "[''a'', ''b'']" "[''b'', ''a'']" None
      "Some [''a'', ''b'']" _ "Some [''b'', ''a'']" _ "[''a'', ''b'']" _ "[''b'', ''a'']" _]
  show ?thesis
    using e fp fq r1 r2 l1 l2 ne t by blast
qed

subsection \<open>Rows of an interval exchange given to GeneralizedPermutation (C9)\<close>

text \<open>
  Claim C9: for every pair of rows in which each letter occurs exactly once in the top row and
  exactly once in the bottom row, \<^verbatim>\<open>GeneralizedPermutation\<close> gives what \<^verbatim>\<open>Permutation\<close> gives on
  the same arguments; an object it returns is of an IET class, never of a linear-involution
  class, and it does return one when the flips are accepted.
\<close>

theorem GeneralizedPermutation_iet_rows:
  assumes "once_in_each_interval a0 a1"
  shows "GeneralizedPermutation a0 a1 reduced flips alphabet
           = Permutation a0 a1 reduced flips alphabet
       \<and> (\<forall>p. GeneralizedPermutation a0 a1 reduced flips alphabet = Inr p
              \<longrightarrow> is_iet_class (perm_cls p))
       \<and> (flips_accepted flips (a0 @ a1)
              \<longrightarrow> (\<exists>p. GeneralizedPermutation a0 a1 reduced flips alphabet = Inr p))"
proof -
  have eq: "GeneralizedPermutation a0 a1 reduced flips alphabet
          = Permutation a0 a1 reduced flips alphabet"
    using assms once_imp_twice[OF assms] once_without[OF assms]
    by (simp add: GeneralizedPermutation_cases Permutation_cases)
  show ?thesis
    unfolding eq using assms by (auto simp: Permutation_cases is_iet_class_of)
qed

theorem GeneralizedPermutation_iet_rows_witness:
  "once_in_each_interval [''a'', ''b'', ''c''] [''c'', ''b'', ''a'']
   \<and> GeneralizedPermutation [''a'', ''b'', ''c''] [''c'', ''b'', ''a''] None None None
     = Permutation [''a'', ''b'', ''c''] [''c'', ''b'', ''a''] None None None
   \<and> GeneralizedPermutation [''a'', ''b'', ''c''] [''c'', ''b'', ''a''] None None None
     = Inr \<lparr>perm_cls = LabelledPermutationIET, perm_top = [''a'', ''b'', ''c''],
            perm_bottom = [''c'', ''b'', ''a''], perm_alphabet = None, perm_reduced = False,
            perm_flips = None\<rparr>"
proof -
  have h: "once_in_each_interval [''a'', ''b'', ''c''] [''c'', ''b'', ''a'']"
    by (simp add: once_in_each_interval_def)
  have P: "Permutation [''a'', ''b'', ''c''] [''c'', ''b'', ''a''] None None None
     = Inr \<lparr>perm_cls = LabelledPermutationIET, perm_top = [''a'', ''b'', ''c''],
            perm_bottom = [''c'', ''b'', ''a''], perm_alphabet = None, perm_reduced = False,
            perm_flips = None\<rparr>"
    by (simp add: constructor_defs)
  show ?thesis
    using h P GeneralizedPermutation_iet_rows[OF h, of None None None] by simp
qed

subsection \<open>Rows without admissible lengths (C10)\<close>

text \<open>
  Claim C10: \<^verbatim>\<open>GeneralizedPermutation\<close> fails with the "no admissible length" error, and
  returns no object, whenever each letter occurs exactly twice in the two rows together and,
  once every letter that occurs once in each row is deleted, exactly one of the two rows is
  empty. The call is on the two rows, with no flips; whatever flips are given as well, no
  object is returned for such rows.
\<close>

theorem GeneralizedPermutation_no_admissible_length:
  assumes "appear_twice (a0 @ a1)"
    and "(fst (without_once_letters a0 a1) = []) \<noteq> (snd (without_once_letters a0 a1) = [])"
  shows "GeneralizedPermutation a0 a1 reduced None alphabet = Inl NoAdmissibleLength
       \<and> (\<forall>p. GeneralizedPermutation a0 a1 reduced flips alphabet \<noteq> Inr p)"
  using assms
  by (cases "without_once_letters a0 a1")
     (auto simp: GeneralizedPermutation_cases flips_accepted_def)

theorem GeneralizedPermutation_no_admissible_length_witness:
  "appear_twice ([''a'', ''a'', ''b''] @ [''b''])
   \<and> (fst (without_once_letters [''a'', ''a'', ''b''] [''b'']) = [])
       \<noteq> (snd (without_once_letters [''a'', ''a'', ''b''] [''b'']) = [])
   \<and> GeneralizedPermutation [''a'', ''a'', ''b''] [''b''] None None None
       = Inl NoAdmissibleLength"
proof -
  have h1: "appear_twice ([''a'', ''a'', ''b''] @ [''b''])"
    by (simp add: appear_twice_def)
  have h2: "(fst (without_once_letters [''a'', ''a'', ''b''] [''b'']) = [])
       \<noteq> (snd (without_once_letters [''a'', ''a'', ''b''] [''b'']) = [])"
    by (simp add: without_once_letters_def)
  show ?thesis
    using h1 h2 GeneralizedPermutation_no_admissible_length[OF h1 h2, of None None None]
    by simp
qed

end
